theory Spec2Isabelle
  imports Main
begin

section \<open>Memory model\<close>

text \<open>
  The program of \<^verbatim>\<open>tracegen.c\<close> keeps its integer set in a singly linked list of
  heap nodes. The heap is modelled as an explicit store from addresses to nodes; a
  pointer is an optional address, \<open>None\<close> being \<^verbatim>\<open>NULL\<close>. \<^verbatim>\<open>malloc\<close> hands out the
  address \<open>brk\<close> and advances it, so a fresh node never coincides with a live one;
  \<^verbatim>\<open>free\<close> removes the cell, so that any later access through a stale pointer is
  an error of the model instead of an arbitrary value. Allocation failure (the
  \<^verbatim>\<open>exit(1)\<close> after \<^verbatim>\<open>perror("malloc")\<close>) is not modelled: the store is unbounded.
\<close>

type_synonym addr = nat
type_synonym ptr = "addr option"

text \<open>
  \<^verbatim>\<open>val_t\<close> is \<^verbatim>\<open>intptr_t\<close>, compared as a signed integer. The sentinels carry
  \<^verbatim>\<open>INT_MIN\<close> and \<^verbatim>\<open>INT_MAX\<close>, and every value the program passes to the set is a C
  \<^verbatim>\<open>int\<close>; where a property needs the value to be one, it says so (\<open>v \<le> VAL_MAX\<close>).
\<close>

type_synonym val_t = int

definition INT_MIN :: int where
  "INT_MIN = - 2147483648"

definition INT_MAX :: int where
  "INT_MAX = 2147483647"

definition VAL_MIN :: val_t where
  "VAL_MIN = INT_MIN"

definition VAL_MAX :: val_t where
  "VAL_MAX = INT_MAX"

record node =
  val :: val_t
  nxt :: ptr

record intset =
  head :: ptr

record mem =
  cells :: "addr \<rightharpoonup> node"
  brk :: addr

datatype error = NullDeref | UseAfterFree | SignedOverflow | AssertFail | UninitRead

text \<open>
  A computation either does not return (\<open>None\<close>), stops with an error
  (\<open>Some (Inl e)\<close>) or returns a value (\<open>Some (Inr x)\<close>).
\<close>

type_synonym 'a result = "(error + 'a) option"

definition bind_result :: "'a result \<Rightarrow> ('a \<Rightarrow> 'b result) \<Rightarrow> 'b result" where
  "bind_result r f =
     (case r of None \<Rightarrow> None | Some (Inl e) \<Rightarrow> Some (Inl e) | Some (Inr x) \<Rightarrow> f x)"

definition empty_mem :: mem where
  "empty_mem = \<lparr>cells = Map.empty, brk = 0\<rparr>"

definition load :: "mem \<Rightarrow> ptr \<Rightarrow> error + node" where
  "load m p =
     (case p of
        None \<Rightarrow> Inl NullDeref
      | Some a \<Rightarrow> (case cells m a of None \<Rightarrow> Inl UseAfterFree | Some nd \<Rightarrow> Inr nd))"

definition store_next :: "mem \<Rightarrow> ptr \<Rightarrow> ptr \<Rightarrow> error + mem" where
  "store_next m p q =
     (case load m p of
        Inl e \<Rightarrow> Inl e
      | Inr nd \<Rightarrow> Inr (m\<lparr>cells := (cells m)(the p \<mapsto> nd\<lparr>nxt := q\<rparr>)\<rparr>))"

definition free :: "mem \<Rightarrow> ptr \<Rightarrow> error + mem" where
  "free m p =
     (case p of
        None \<Rightarrow> Inr m
      | Some a \<Rightarrow>
          (case cells m a of
             None \<Rightarrow> Inl UseAfterFree
           | Some nd \<Rightarrow> Inr (m\<lparr>cells := (cells m)(a := None)\<rparr>)))"

section \<open>Linked list\<close>

definition new_node :: "mem \<Rightarrow> val_t \<Rightarrow> ptr \<Rightarrow> ptr \<times> mem" where
  "new_node m v nx =
     (Some (brk m),
      m\<lparr>cells := (cells m)(brk m \<mapsto> \<lparr>val = v, nxt = nx\<rparr>), brk := Suc (brk m)\<rparr>)"

definition set_new :: "mem \<Rightarrow> intset \<times> mem" where
  "set_new m =
     (let (maxp, m1) = new_node m VAL_MAX None;
          (minp, m2) = new_node m1 VAL_MIN maxp
      in (\<lparr>head = minp\<rparr>, m2))"

text \<open>
  The loop \<^verbatim>\<open>while (next->val < val) { prev = next; next = prev->next; }\<close>, which
  \<^verbatim>\<open>set_contains\<close>, \<^verbatim>\<open>set_add\<close> and \<^verbatim>\<open>set_remove\<close> all contain verbatim. It returns
  the final \<^verbatim>\<open>prev\<close> and \<^verbatim>\<open>next\<close>.
\<close>

partial_function (option) set_search :: "mem \<Rightarrow> ptr \<Rightarrow> ptr \<Rightarrow> val_t \<Rightarrow> (ptr \<times> ptr) result" where
  "set_search m prev next v =
     (case load m next of
        Inl e \<Rightarrow> Some (Inl e)
      | Inr nd \<Rightarrow>
          if val nd < v then set_search m next (nxt nd) v
          else Some (Inr (prev, next)))"

declare set_search.simps [code]

text \<open>The common prologue \<^verbatim>\<open>prev = set->head; next = prev->next;\<close> followed by the loop.\<close>

definition set_locate :: "mem \<Rightarrow> intset \<Rightarrow> val_t \<Rightarrow> (ptr \<times> ptr) result" where
  "set_locate m s v =
     (case load m (head s) of
        Inl e \<Rightarrow> Some (Inl e)
      | Inr h \<Rightarrow> set_search m (head s) (nxt h) v)"

definition set_contains :: "mem \<Rightarrow> intset \<Rightarrow> val_t \<Rightarrow> bool result" where
  "set_contains m s v =
     (case set_locate m s v of
        None \<Rightarrow> None
      | Some (Inl e) \<Rightarrow> Some (Inl e)
      | Some (Inr (prev, next)) \<Rightarrow>
          (case load m next of
             Inl e \<Rightarrow> Some (Inl e)
           | Inr nd \<Rightarrow> Some (Inr (val nd = v))))"

definition set_add :: "mem \<Rightarrow> intset \<Rightarrow> val_t \<Rightarrow> (bool \<times> mem) result" where
  "set_add m s v =
     (case set_locate m s v of
        None \<Rightarrow> None
      | Some (Inl e) \<Rightarrow> Some (Inl e)
      | Some (Inr (prev, next)) \<Rightarrow>
          (case load m next of
             Inl e \<Rightarrow> Some (Inl e)
           | Inr nd \<Rightarrow>
               if val nd \<noteq> v then
                 (let (p, m1) = new_node m v next
                  in case store_next m1 prev p of
                       Inl e \<Rightarrow> Some (Inl e)
                     | Inr m2 \<Rightarrow> Some (Inr (True, m2)))
               else Some (Inr (False, m))))"

definition set_remove :: "mem \<Rightarrow> intset \<Rightarrow> val_t \<Rightarrow> (bool \<times> mem) result" where
  "set_remove m s v =
     (case set_locate m s v of
        None \<Rightarrow> None
      | Some (Inl e) \<Rightarrow> Some (Inl e)
      | Some (Inr (prev, next)) \<Rightarrow>
          (case load m next of
             Inl e \<Rightarrow> Some (Inl e)
           | Inr nd \<Rightarrow>
               if val nd = v then
                 (case store_next m prev (nxt nd) of
                    Inl e \<Rightarrow> Some (Inl e)
                  | Inr m1 \<Rightarrow>
                      (case free m1 next of
                         Inl e \<Rightarrow> Some (Inl e)
                       | Inr m2 \<Rightarrow> Some (Inr (True, m2))))
               else Some (Inr (False, m))))"

text \<open>
  \<^verbatim>\<open>set_size\<close>: the counter is a C \<^verbatim>\<open>int\<close>; incrementing it at \<^verbatim>\<open>INT_MAX\<close> is
  undefined behaviour and is an error of the model.
\<close>

partial_function (option) size_loop :: "mem \<Rightarrow> ptr \<Rightarrow> int \<Rightarrow> int result" where
  "size_loop m nodep sz =
     (case load m nodep of
        Inl e \<Rightarrow> Some (Inl e)
      | Inr nd \<Rightarrow>
          if nxt nd \<noteq> None then
            (if sz = INT_MAX then Some (Inl SignedOverflow)
             else size_loop m (nxt nd) (sz + 1))
          else Some (Inr sz))"

declare size_loop.simps [code]

definition set_size :: "mem \<Rightarrow> intset \<Rightarrow> int result" where
  "set_size m s =
     (case load m (head s) of
        Inl e \<Rightarrow> Some (Inl e)
      | Inr h \<Rightarrow> size_loop m (nxt h) 0)"


section \<open>Abstraction of the chain\<close>

text \<open>
  \<open>chain m p ns\<close>: starting at pointer \<open>p\<close> and following \<^verbatim>\<open>next\<close> until \<^verbatim>\<open>NULL\<close>, the
  store holds exactly the nodes \<open>ns\<close>, each given as its address and its value.
\<close>

fun chain :: "mem \<Rightarrow> ptr \<Rightarrow> (addr \<times> val_t) list \<Rightarrow> bool" where
  "chain m p [] = (p = None)"
| "chain m p (n # ns) =
     (p = Some (fst n) \<and>
      (case cells m (fst n) of
         None \<Rightarrow> False
       | Some nd \<Rightarrow> val nd = snd n \<and> chain m (nxt nd) ns))"

text \<open>
  The sentinel invariant under which the three operations are memory safe: the chain
  from the head is acyclic and lies below \<open>brk\<close>, it has at least the two sentinels,
  the first node carries \<open>VAL_MIN\<close>, the last one \<open>VAL_MAX\<close>, and the values after the
  head node increase strictly.
\<close>

definition set_ok :: "mem \<Rightarrow> intset \<Rightarrow> (addr \<times> val_t) list \<Rightarrow> bool" where
  "set_ok m s ns =
     (chain m (head s) ns \<and> distinct (map fst ns) \<and> (\<forall>a \<in> set (map fst ns). a < brk m) \<and>
      2 \<le> length ns \<and> snd (hd ns) = VAL_MIN \<and> snd (last ns) = VAL_MAX \<and>
      sorted_wrt (<) (map snd (tl ns)))"

text \<open>
  The structural invariant of the set, with the nodes of the chain given: the sentinel
  invariant, and the values increase strictly along the whole chain, the head
  included. The members of the set are the values of the nodes between the sentinels.
\<close>

definition set_inv :: "mem \<Rightarrow> intset \<Rightarrow> (addr \<times> val_t) list \<Rightarrow> bool" where
  "set_inv m s ns = (set_ok m s ns \<and> sorted_wrt (<) (map snd ns))"

definition members :: "(addr \<times> val_t) list \<Rightarrow> val_t set" where
  "members ns = set (map snd (butlast (tl ns)))"

text \<open>
  The store after \<^verbatim>\<open>prev->next = new_node(val, next, 0)\<close>, where \<open>q\<close> is the address of
  \<^verbatim>\<open>prev\<close> (a node of value \<open>x\<close>) and \<open>b\<close> the address of \<^verbatim>\<open>next\<close>.
\<close>

definition splice :: "mem \<Rightarrow> addr \<Rightarrow> val_t \<Rightarrow> addr \<Rightarrow> val_t \<Rightarrow> mem" where
  "splice m q x b v =
     m\<lparr>cells := (cells m)(brk m \<mapsto> \<lparr>val = v, nxt = Some b\<rparr>,
                           q \<mapsto> \<lparr>val = x, nxt = Some (brk m)\<rparr>),
       brk := Suc (brk m)\<rparr>"

text \<open>
  The store after \<^verbatim>\<open>prev->next = next->next; free(next);\<close>, where \<open>q\<close> is the address of
  \<^verbatim>\<open>prev\<close> (a node of value \<open>x\<close>), \<open>b\<close> the address of \<^verbatim>\<open>next\<close> and \<open>r\<close> its successor.
\<close>

definition unlink :: "mem \<Rightarrow> addr \<Rightarrow> val_t \<Rightarrow> addr \<Rightarrow> ptr \<Rightarrow> mem" where
  "unlink m q x b r = m\<lparr>cells := (cells m)(q \<mapsto> \<lparr>val = x, nxt = r\<rparr>, b := None)\<rparr>"

text \<open>Reading the whole chain off the store, from a pointer to \<^verbatim>\<open>NULL\<close>.\<close>

partial_function (option) walk :: "mem \<Rightarrow> ptr \<Rightarrow> (addr \<times> val_t) list \<Rightarrow> (addr \<times> val_t) list result" where
  "walk m p acc =
     (case p of
        None \<Rightarrow> Some (Inr (rev acc))
      | Some a \<Rightarrow>
          (case cells m a of
             None \<Rightarrow> Some (Inl UseAfterFree)
           | Some nd \<Rightarrow> walk m (nxt nd) ((a, val nd) # acc)))"

declare walk.simps [code]

definition set_nodes :: "mem \<Rightarrow> intset \<Rightarrow> (addr \<times> val_t) list result" where
  "set_nodes m s = walk m (head s) []"

text \<open>
  The structural invariant of the set: values strictly increasing along the whole
  chain, minimum sentinel first, maximum sentinel last, no value twice among the nodes
  between the sentinels.
\<close>

definition set_invariant :: "mem \<Rightarrow> intset \<Rightarrow> bool" where
  "set_invariant m s =
     (case set_nodes m s of
        Some (Inr ns) \<Rightarrow>
          2 \<le> length ns \<and> sorted_wrt (<) (map snd ns) \<and>
          snd (hd ns) = VAL_MIN \<and> snd (last ns) = VAL_MAX \<and>
          distinct (map snd (butlast (tl ns)))
      | _ \<Rightarrow> False)"

section \<open>Sequences of operations\<close>

text \<open>
  A single-threaded sequence of \<^verbatim>\<open>set_add\<close> and \<^verbatim>\<open>set_remove\<close> calls on one set. As the
  driver does with \<^verbatim>\<open>d->diff\<close>, \<open>run_ops\<close> counts one up for every add that returns
  true and one down for every remove that returns true.
\<close>

datatype set_op = Add val_t | Remove val_t

fun run_ops :: "mem \<Rightarrow> intset \<Rightarrow> int \<Rightarrow> set_op list \<Rightarrow> (int \<times> mem) result" where
  "run_ops m s d [] = Some (Inr (d, m))"
| "run_ops m s d (Add v # ops) =
     (case set_add m s v of
        None \<Rightarrow> None
      | Some (Inl e) \<Rightarrow> Some (Inl e)
      | Some (Inr (b, m')) \<Rightarrow> run_ops m' s (if b then d + 1 else d) ops)"
| "run_ops m s d (Remove v # ops) =
     (case set_remove m s v of
        None \<Rightarrow> None
      | Some (Inl e) \<Rightarrow> Some (Inl e)
      | Some (Inr (b, m')) \<Rightarrow> run_ops m' s (if b then d - 1 else d) ops)"

text \<open>The count of \<open>run_ops\<close> paired with what \<^verbatim>\<open>set_size\<close> returns afterwards.\<close>

definition size_after :: "mem \<Rightarrow> intset \<Rightarrow> set_op list \<Rightarrow> (int \<times> int) result" where
  "size_after m s ops =
     (case run_ops m s 0 ops of
        None \<Rightarrow> None
      | Some (Inl e) \<Rightarrow> Some (Inl e)
      | Some (Inr (d, m')) \<Rightarrow>
          (case set_size m' s of
             None \<Rightarrow> None
           | Some (Inl e) \<Rightarrow> Some (Inl e)
           | Some (Inr n) \<Rightarrow> Some (Inr (d, n))))"

definition invariant_after :: "mem \<Rightarrow> intset \<Rightarrow> set_op list \<Rightarrow> bool result" where
  "invariant_after m s ops =
     (case run_ops m s 0 ops of
        None \<Rightarrow> None
      | Some (Inl e) \<Rightarrow> Some (Inl e)
      | Some (Inr (d, m')) \<Rightarrow> Some (Inr (set_invariant m' s)))"

text \<open>The insertion of the \<open>INT_MAX + 1\<close> values from \<open>-1\<close> to \<open>INT_MAX - 1\<close>, in this order.\<close>

definition many_adds :: "set_op list" where
  "many_adds = map Add [- 1..2147483646]"

text \<open>
  \<^verbatim>\<open>set_add\<close>, \<^verbatim>\<open>set_contains\<close>, \<^verbatim>\<open>set_remove\<close> and \<^verbatim>\<open>set_contains\<close> again, on one value
  and with nothing in between; the results of the last three calls.
\<close>

definition round_trip :: "mem \<Rightarrow> intset \<Rightarrow> val_t \<Rightarrow> (bool \<times> bool \<times> bool) result" where
  "round_trip m s v =
     bind_result (set_add m s v) (\<lambda>(a, m1).
       bind_result (set_contains m1 s v) (\<lambda>c1.
         bind_result (set_remove m1 s v) (\<lambda>(r, m2).
           bind_result (set_contains m2 s v) (\<lambda>c2. Some (Inr (c1, r, c2))))))"

text \<open>
  Values are C \<^verbatim>\<open>int\<close>s, so none exceeds \<open>VAL_MAX\<close>. \<open>op_safe\<close> excludes the removal of
  \<open>VAL_MAX\<close>, the value of the maximum sentinel; \<open>op_inner\<close> also excludes the insertion
  of \<open>VAL_MIN\<close>, the value of the minimum sentinel.
\<close>

fun op_safe :: "set_op \<Rightarrow> bool" where
  "op_safe (Add v) = (v \<le> VAL_MAX)"
| "op_safe (Remove v) = (v < VAL_MAX)"

fun op_inner :: "set_op \<Rightarrow> bool" where
  "op_inner (Add v) = (VAL_MIN < v \<and> v \<le> VAL_MAX)"
| "op_inner (Remove v) = (v < VAL_MAX)"

fun added :: "set_op list \<Rightarrow> val_t set" where
  "added [] = {}"
| "added (Add v # ops) = insert v (added ops)"
| "added (Remove v # ops) = added ops"

section \<open>Random stream\<close>

text \<open>
  \<^verbatim>\<open>erand48\<close> belongs to the C library, not to the program. POSIX fixes it: the 48-bit
  state \<open>X\<close> held in \<^verbatim>\<open>seed[0..2]\<close> becomes \<open>(a * X + c) mod 2^48\<close> with
  \<open>a = 0x5DEECE66D\<close> and \<open>c = 0xB\<close>, and the result is the new state scaled by
  \<open>2^-48\<close>, a double in \<open>[0, 1)\<close> that is exact since 48 bits fit the 53-bit significand.
  The three \<^verbatim>\<open>unsigned short\<close>s are modelled as the one number \<open>X\<close>, \<open>0 \<le> X < 2^48\<close>.
\<close>

definition erand48 :: "int \<Rightarrow> int" where
  "erand48 x = (25214903917 * x + 11) mod 2 ^ 48"

function bitlen :: "int \<Rightarrow> nat" where
  "bitlen n = (if n \<le> 0 then 0 else Suc (bitlen (n div 2)))"
  by pat_completeness auto
termination
  by (relation "measure nat") auto

declare bitlen.simps [simp del]

text \<open>
  The product \<^verbatim>\<open>erand48(seed) * n\<close> of two doubles is the exact product rounded to 53
  significant bits, to nearest, ties to even (IEEE 754 binary64, default rounding).
  The first factor is a multiple of \<open>2^-48\<close> and the second an integer, so the exact
  product has the magnitude \<open>p * 2^-48\<close> for a natural number \<open>p\<close>, and \<open>round53 p\<close> is
  the magnitude of the rounded product in the same unit.
\<close>

definition round53 :: "int \<Rightarrow> int" where
  "round53 p =
     (let e = bitlen p - 53; q = p div 2 ^ e; r = p mod 2 ^ e
      in if 2 * r < 2 ^ e \<or> (2 * r = 2 ^ e \<and> even q) then q * 2 ^ e else (q + 1) * 2 ^ e)"

text \<open>
  \<^verbatim>\<open>rand_range\<close>: the cast \<^verbatim>\<open>(int)\<close> truncates towards zero; the \<^verbatim>\<open>assert\<close> aborts the
  program when it fails. The function returns the value and the new generator state.
\<close>

definition rand_range :: "int \<Rightarrow> int \<Rightarrow> error + int \<times> int" where
  "rand_range n seed =
     (let x = erand48 seed;
          v = sgn n * (round53 (x * \<bar>n\<bar>) div 2 ^ 48)
      in if v \<ge> 0 \<and> v < n then Inr (v, x) else Inl AssertFail)"

section \<open>Barrier\<close>

text \<open>
  The mutex makes each call of \<^verbatim>\<open>barrier_cross\<close> atomic up to the point where it blocks,
  so the barrier is a state machine over events. A thread inside \<^verbatim>\<open>pthread_cond_wait\<close>
  is in \<open>waiting\<close>. It leaves \<^verbatim>\<open>barrier_cross\<close> when \<^verbatim>\<open>pthread_cond_broadcast\<close> empties
  \<open>waiting\<close>, or when its \<^verbatim>\<open>pthread_cond_wait\<close> returns without a broadcast, which POSIX
  permits: the code waits under \<^verbatim>\<open>if\<close> and does not test \<^verbatim>\<open>crossing\<close> again, so such a
  thread goes on to \<^verbatim>\<open>pthread_mutex_unlock\<close> and returns. Each event yields the new barrier
  and the threads that leave \<^verbatim>\<open>barrier_cross\<close> by it.
\<close>

record barrier =
  count :: int
  crossing :: int
  waiting :: "nat list"

definition barrier_init :: "int \<Rightarrow> barrier" where
  "barrier_init n = \<lparr>count = n, crossing = 0, waiting = []\<rparr>"

text \<open>Thread \<open>t\<close> calls \<^verbatim>\<open>barrier_cross\<close>.\<close>

definition barrier_cross :: "barrier \<Rightarrow> nat \<Rightarrow> barrier \<times> nat list" where
  "barrier_cross b t =
     (let b1 = b\<lparr>crossing := crossing b + 1\<rparr>
      in if crossing b1 < count b1 then (b1\<lparr>waiting := waiting b1 @ [t]\<rparr>, [])
         else (b1\<lparr>waiting := [], crossing := 0\<rparr>, waiting b1 @ [t]))"

text \<open>The \<^verbatim>\<open>pthread_cond_wait\<close> of the waiting thread \<open>t\<close> returns without a broadcast.\<close>

definition barrier_wake :: "barrier \<Rightarrow> nat \<Rightarrow> barrier \<times> nat list" where
  "barrier_wake b t =
     (if t \<in> set (waiting b) then (b\<lparr>waiting := removeAll t (waiting b)\<rparr>, [t])
      else (b, []))"

datatype event = Cross nat | Wake nat

fun barrier_step :: "barrier \<Rightarrow> event \<Rightarrow> barrier \<times> nat list" where
  "barrier_step b (Cross t) = barrier_cross b t"
| "barrier_step b (Wake t) = barrier_wake b t"

text \<open>A sequence of events, with the threads each of them releases.\<close>

fun barrier_run :: "barrier \<Rightarrow> event list \<Rightarrow> barrier \<times> nat list list" where
  "barrier_run b [] = (b, [])"
| "barrier_run b (e # es) =
     (let (b1, out) = barrier_step b e; (b2, outs) = barrier_run b1 es
      in (b2, out # outs))"

section \<open>Stress test\<close>

text \<open>
  The fields of \<^verbatim>\<open>thread_data_t\<close> that \<^verbatim>\<open>test\<close> uses after the barrier. The
  \<^verbatim>\<open>unsigned long\<close> counters are natural numbers: they start at 0 and one call of
  \<^verbatim>\<open>test\<close> adds at most \<^verbatim>\<open>ops\<close> to each, which cannot wrap.
\<close>

record thread_data =
  set_d :: intset
  nb_add :: nat
  nb_remove :: nat
  nb_contains :: nat
  nb_found :: nat
  seed :: int
  ops :: int
  diff :: int
  range_d :: int
  update :: int
  alternate :: int

text \<open>
  The locals \<^verbatim>\<open>val\<close> and \<^verbatim>\<open>last\<close> of \<^verbatim>\<open>test\<close>; \<^verbatim>\<open>val\<close> is declared without a value
  (\<open>None\<close>). A trace record is the tag and the value of one line on \<^verbatim>\<open>stderr\<close>.
\<close>

record locals =
  val_l :: "int option"
  last_l :: int

type_synonym trace = "(int \<times> int) list"

text \<open>
  One iteration of the body of \<^verbatim>\<open>while (d->ops--)\<close>. Each \<^verbatim>\<open>fprintf(stderr, ...)\<close>
  appends its record to the trace.
\<close>

definition test_step ::
  "thread_data \<Rightarrow> locals \<Rightarrow> mem \<Rightarrow> trace \<Rightarrow> (thread_data \<times> locals \<times> mem \<times> trace) result" where
  "test_step d l m tr =
     bind_result (Some (rand_range 100 (seed d))) (\<lambda>(op, x1).
       let d = d\<lparr>seed := x1\<rparr> in
       if op < update d then
         if alternate d \<noteq> 0 then
           if last_l l < 0 then
             bind_result (Some (rand_range (range_d d) (seed d))) (\<lambda>(r, x2).
               let d = d\<lparr>seed := x2\<rparr>; l = l\<lparr>val_l := Some (r + 1)\<rparr> in
               bind_result (set_add m (set_d d) (r + 1)) (\<lambda>(b, m').
                 let d = (if b then d\<lparr>diff := diff d + 1\<rparr> else d);
                     l = (if b then l\<lparr>last_l := r + 1\<rparr> else l);
                     d = d\<lparr>nb_add := nb_add d + 1\<rparr>
                 in Some (Inr (d, l, m', tr @ [(0, r + 1)]))))
           else
             bind_result (set_remove m (set_d d) (last_l l)) (\<lambda>(b, m').
               let d = (if b then d\<lparr>diff := diff d - 1\<rparr> else d);
                   d = d\<lparr>nb_remove := nb_remove d + 1\<rparr>;
                   l = l\<lparr>last_l := - 1\<rparr>
               in case val_l l of
                    None \<Rightarrow> Some (Inl UninitRead)
                  | Some pv \<Rightarrow> Some (Inr (d, l, m', tr @ [(1, pv)])))
         else
           bind_result (Some (rand_range (range_d d) (seed d))) (\<lambda>(r, x2).
             let d = d\<lparr>seed := x2\<rparr>; l = l\<lparr>val_l := Some (r + 1)\<rparr> in
             if op mod 2 = 0 then
               bind_result (set_add m (set_d d) (r + 1)) (\<lambda>(b, m').
                 let d = (if b then d\<lparr>diff := diff d + 1\<rparr> else d);
                     d = d\<lparr>nb_add := nb_add d + 1\<rparr>
                 in Some (Inr (d, l, m', tr @ [(0, r + 1)])))
             else
               bind_result (set_remove m (set_d d) (r + 1)) (\<lambda>(b, m').
                 let d = (if b then d\<lparr>diff := diff d - 1\<rparr> else d);
                     d = d\<lparr>nb_remove := nb_remove d + 1\<rparr>
                 in Some (Inr (d, l, m', tr @ [(1, r + 1)]))))
       else
         bind_result (Some (rand_range (range_d d) (seed d))) (\<lambda>(r, x2).
           let d = d\<lparr>seed := x2\<rparr>; l = l\<lparr>val_l := Some (r + 1)\<rparr> in
           bind_result (set_contains m (set_d d) (r + 1)) (\<lambda>b.
             let d = (if b then d\<lparr>nb_found := nb_found d + 1\<rparr> else d);
                 d = d\<lparr>nb_contains := nb_contains d + 1\<rparr>
             in Some (Inr (d, l, m, tr @ [(2, r + 1)])))))"

text \<open>
  The loop \<^verbatim>\<open>while (d->ops--)\<close>: the test reads \<^verbatim>\<open>d->ops\<close> and then decrements it,
  also when it leaves the loop; decrementing \<^verbatim>\<open>INT_MIN\<close> is undefined behaviour.
\<close>

partial_function (option) test_loop ::
  "thread_data \<Rightarrow> locals \<Rightarrow> mem \<Rightarrow> trace \<Rightarrow> (thread_data \<times> locals \<times> mem \<times> trace) result" where
  "test_loop d l m tr =
     (if ops d = 0 then Some (Inr (d\<lparr>ops := - 1\<rparr>, l, m, tr))
      else if ops d = INT_MIN then Some (Inl SignedOverflow)
      else
        (case test_step (d\<lparr>ops := ops d - 1\<rparr>) l m tr of
           None \<Rightarrow> None
         | Some (Inl e) \<Rightarrow> Some (Inl e)
         | Some (Inr (d', l', m', tr')) \<Rightarrow> test_loop d' l' m' tr'))"

declare test_loop.simps [code]

text \<open>
  \<^verbatim>\<open>test\<close> for a single worker, after \<^verbatim>\<open>barrier_cross\<close> has returned: \<^verbatim>\<open>last\<close> starts at
  \<open>-1\<close>. The result is the thread data, the store and the trace written.
\<close>

definition test :: "thread_data \<Rightarrow> mem \<Rightarrow> (thread_data \<times> mem \<times> trace) result" where
  "test d m =
     bind_result (test_loop d \<lparr>val_l = None, last_l = - 1\<rparr> m [])
       (\<lambda>(d', l', m', tr). Some (Inr (d', m', tr)))"

text \<open>The initialisation of \<^verbatim>\<open>data[i]\<close> in \<^verbatim>\<open>main\<close>, the seed being what \<^verbatim>\<open>rand_init\<close> drew.\<close>

definition thread_init :: "intset \<Rightarrow> int \<Rightarrow> int \<Rightarrow> int \<Rightarrow> int \<Rightarrow> int \<Rightarrow> thread_data" where
  "thread_init s sd n rng upd alt =
     \<lparr>set_d = s, nb_add = 0, nb_remove = 0, nb_contains = 0, nb_found = 0, seed = sd,
      ops = n, diff = 0, range_d = rng, update = upd, alternate = alt\<rparr>"

text \<open>
  A run with one worker: a new set, filled by the operations \<open>pre\<close>, then \<^verbatim>\<open>test\<close>.
  It yields the counters \<^verbatim>\<open>nb_add\<close>, \<^verbatim>\<open>nb_remove\<close> and \<^verbatim>\<open>diff\<close> of the worker, the
  trace, and the values left in the set between the sentinels.
\<close>

definition single_run ::
  "set_op list \<Rightarrow> int \<Rightarrow> int \<Rightarrow> int \<Rightarrow> int \<Rightarrow> int \<Rightarrow> (nat \<times> nat \<times> int \<times> trace \<times> val_t list) result" where
  "single_run pre sd n rng upd alt =
     (let (s, m) = set_new empty_mem in
      bind_result (run_ops m s 0 pre) (\<lambda>(d0, m1).
        bind_result (test (thread_init s sd n rng upd alt) m1) (\<lambda>(d, m2, tr).
          bind_result (set_nodes m2 s) (\<lambda>ns.
            Some (Inr (nb_add d, nb_remove d, diff d, tr, map snd (butlast (tl ns))))))))"

section \<open>Properties of the chain\<close>

lemma chain_cong:
  "\<forall>a \<in> fst ` set ns. cells m' a = cells m a \<Longrightarrow> chain m' p ns = chain m p ns"
  by (induction ns arbitrary: p) (auto split: option.splits)

lemma chain_at:
  "chain m p (pre @ n # rest) \<Longrightarrow>
   \<exists>nd. cells m (fst n) = Some nd \<and> val nd = snd n \<and> chain m (nxt nd) rest"
  by (induction pre arbitrary: p) (auto split: option.splits)

lemma chain_splice:
  "chain m p (pre @ n # rest) \<Longrightarrow>
   \<forall>a \<in> fst ` set pre. cells m' a = cells m a \<Longrightarrow>
   cells m' (fst n) = Some \<lparr>val = snd n, nxt = r\<rparr> \<Longrightarrow>
   chain m' r rest' \<Longrightarrow>
   chain m' p (pre @ n # rest')"
  by (induction pre arbitrary: p) (auto split: option.splits)

lemma set_search_chain:
  "chain m nx (pre @ (b, y) # post) \<Longrightarrow> \<forall>z \<in> snd ` set pre. z < v \<Longrightarrow> v \<le> y \<Longrightarrow>
   set_search m pv nx v =
     Some (Inr (if pre = [] then pv else Some (fst (last pre)), Some b))"
proof (induction pre arbitrary: pv nx)
  case Nil
  then show ?case
    by (subst set_search.simps) (auto simp: load_def split: option.splits)
next
  case (Cons n pre)
  from Cons.prems obtain nd where nd: "nx = Some (fst n)" "cells m (fst n) = Some nd"
    "val nd = snd n" "chain m (nxt nd) (pre @ (b, y) # post)"
    by (auto split: option.splits)
  have lt: "snd n < v" and rest: "\<forall>z \<in> snd ` set pre. z < v"
    using Cons.prems(2) by auto
  have "set_search m pv nx v = set_search m nx (nxt nd) v"
    using nd lt by (subst set_search.simps) (simp add: load_def)
  also have "\<dots> = Some (Inr (if pre = [] then nx else Some (fst (last pre)), Some b))"
    by (rule Cons.IH [OF nd(4) rest Cons.prems(3)])
  finally show ?case using nd(1) by simp
qed

lemma set_locate_chain:
  assumes "chain m (head s) (front @ (q, x) # (b, y) # post)"
    and "\<forall>z \<in> snd ` set (tl (front @ [(q, x)])). z < v" and "v \<le> y"
  shows "set_locate m s v = Some (Inr (Some q, Some b))"
proof (cases front)
  case Nil
  with assms(1) obtain nd where nd: "head s = Some q" "cells m q = Some nd"
    "chain m (nxt nd) ((b, y) # post)"
    by (auto split: option.splits)
  have "set_search m (Some q) (nxt nd) v = Some (Inr (Some q, Some b))"
    using set_search_chain [of m "nxt nd" "[]" b y post v "Some q"] nd(3) assms(3) by simp
  then show ?thesis using nd by (simp add: set_locate_def load_def)
next
  case (Cons h f)
  with assms(1) obtain nd where nd: "head s = Some (fst h)" "cells m (fst h) = Some nd"
    "chain m (nxt nd) ((f @ [(q, x)]) @ (b, y) # post)"
    by (auto split: option.splits)
  have "\<forall>z \<in> snd ` set (f @ [(q, x)]). z < v"
    using assms(2) Cons by simp
  from set_search_chain [OF nd(3) this assms(3), of "head s"]
  show ?thesis using nd by (simp add: set_locate_def load_def)
qed

lemma set_ok_split:
  assumes "set_ok m s ns" and "v \<le> VAL_MAX"
  obtains front q x b y post where "ns = front @ (q, x) # (b, y) # post"
    and "\<forall>z \<in> snd ` set (tl (front @ [(q, x)])). z < v" and "v \<le> y"
proof -
  from assms(1) obtain h t where ns: "ns = h # t" and t: "t \<noteq> []"
    and lastt: "snd (last t) = VAL_MAX"
    by (cases ns; cases "tl ns") (auto simp: set_ok_def)
  define pre where "pre = takeWhile (\<lambda>n. snd n < v) t"
  define rest where "rest = dropWhile (\<lambda>n. snd n < v) t"
  have t_eq: "t = pre @ rest" by (simp add: pre_def rest_def)
  have "\<not> snd (last t) < v" using lastt assms(2) by simp
  then have ex: "\<exists>n \<in> set t. \<not> snd n < v" using t last_in_set by blast
  then have "rest \<noteq> []" by (auto simp: rest_def)
  then obtain b y post where rest: "rest = (b, y) # post" by (cases rest) auto
  have "\<not> y < v" using hd_dropWhile [of "\<lambda>n. snd n < v" t] rest ex
    by (simp add: rest_def)
  have pre_lt: "\<forall>z \<in> snd ` set pre. z < v"
    by (auto simp: pre_def dest: set_takeWhileD)
  have "h # pre \<noteq> []" by simp
  then obtain front q x where fq: "h # pre = front @ [(q, x)]"
    by (metis append_butlast_last_id surj_pair)
  then have "tl (front @ [(q, x)]) = pre" by (metis list.sel(3))
  with pre_lt have 1: "\<forall>z \<in> snd ` set (tl (front @ [(q, x)])). z < v" by simp
  have 2: "ns = front @ (q, x) # (b, y) # post"
    using ns t_eq rest fq by (metis append.assoc append_Cons append_Nil)
  from \<open>\<not> y < v\<close> have 3: "v \<le> y" by simp
  show ?thesis by (rule that [OF 2 1 3])
qed

lemma set_contains_chain:
  assumes "chain m (head s) (front @ (q, x) # (b, y) # post)"
    and "\<forall>z \<in> snd ` set (tl (front @ [(q, x)])). z < v" and "v \<le> y"
  shows "set_contains m s v = Some (Inr (y = v))"
proof -
  from chain_at [of m "head s" "front @ [(q, x)]" "(b, y)" post] assms(1)
  obtain nd where "cells m b = Some nd" "val nd = y" by auto
  then show ?thesis
    using set_locate_chain [OF assms] by (simp add: set_contains_def load_def)
qed

lemma chain_at_node:
  assumes "chain m p (pre @ (q, x) # (b, y) # post)"
  shows "cells m q = Some \<lparr>val = x, nxt = Some b\<rparr>"
proof -
  from chain_at [OF assms] obtain pd where pd: "cells m q = Some pd" "val pd = x"
    "chain m (nxt pd) ((b, y) # post)" by auto
  then have "nxt pd = Some b" by simp
  with pd(2) have "pd = \<lparr>val = x, nxt = Some b\<rparr>" by (cases pd) simp
  with pd(1) show ?thesis by simp
qed

lemma set_add_chain:
  assumes "chain m (head s) (front @ (q, x) # (b, y) # post)"
    and "\<forall>z \<in> snd ` set (tl (front @ [(q, x)])). z < v" and "v \<le> y"
    and "q \<noteq> brk m"
  shows "set_add m s v =
           Some (Inr (if y = v then (False, m) else (True, splice m q x b v)))"
proof -
  from chain_at [of m "head s" "front @ [(q, x)]" "(b, y)" post] assms(1)
  obtain nd where nd: "cells m b = Some nd" "val nd = y" by auto
  have pd: "cells m q = Some \<lparr>val = x, nxt = Some b\<rparr>"
    by (rule chain_at_node [OF assms(1)])
  show ?thesis
    using set_locate_chain [OF assms(1-3)] nd pd assms(4)
    by (simp add: set_add_def load_def new_node_def store_next_def splice_def)
qed

lemma set_remove_chain:
  assumes "chain m (head s) (front @ (q, x) # (b, y) # post)"
    and "\<forall>z \<in> snd ` set (tl (front @ [(q, x)])). z < v" and "v \<le> y"
    and "q \<noteq> b"
  shows "\<exists>r. chain m r post \<and>
           set_remove m s v =
             Some (Inr (if y = v then (True, unlink m q x b r) else (False, m)))"
proof -
  from chain_at [of m "head s" "front @ [(q, x)]" "(b, y)" post] assms(1)
  obtain nd where nd: "cells m b = Some nd" "val nd = y" "chain m (nxt nd) post" by auto
  have pd: "cells m q = Some \<lparr>val = x, nxt = Some b\<rparr>"
    by (rule chain_at_node [OF assms(1)])
  have "set_remove m s v =
             Some (Inr (if y = v then (True, unlink m q x b (nxt nd)) else (False, m)))"
    using set_locate_chain [OF assms(1-3)] nd pd assms(4)
    by (simp add: set_remove_def load_def store_next_def free_def unlink_def)
  with nd(3) show ?thesis by blast
qed

lemma tl_front: "tl (front @ n # r # rest) = tl (front @ [n]) @ r # rest"
  by (cases front) simp_all

lemma hd_front: "hd (front @ n # r # rest) = hd (front @ [n])"
  by (cases front) simp_all

lemma cells_splice_other:
  "a \<noteq> q \<Longrightarrow> a \<noteq> brk m \<Longrightarrow> cells (splice m q x b v) a = cells m a"
  by (simp add: splice_def)

lemma cells_unlink_other:
  "a \<noteq> q \<Longrightarrow> a \<noteq> b \<Longrightarrow> cells (unlink m q x b r) a = cells m a"
  by (simp add: unlink_def)

lemma set_ok_splice:
  assumes ok: "set_ok m s (front @ (q, x) # (b, y) # post)"
    and lt: "\<forall>z \<in> snd ` set (tl (front @ [(q, x)])). z < v" and vy: "v < y"
  shows "set_ok (splice m q x b v) s (front @ (q, x) # (brk m, v) # (b, y) # post)"
proof -
  let ?m' = "splice m q x b v"
  let ?ns = "front @ (q, x) # (b, y) # post"
  from ok have ch: "chain m (head s) ?ns" and di: "distinct (map fst ?ns)"
    and bd: "\<forall>a \<in> set (map fst ?ns). a < brk m"
    and hdv: "snd (hd ?ns) = VAL_MIN" and lastv: "snd (last ?ns) = VAL_MAX"
    and so: "sorted_wrt (<) (map snd (tl ?ns))"
    by (simp_all add: set_ok_def)
  have fresh: "brk m \<notin> set (map fst ?ns)" using bd by blast
  have qb: "q \<noteq> brk m" "b \<noteq> brk m" "q \<noteq> b" using fresh di by auto
  have q_front: "q \<notin> fst ` set front" and q_post: "q \<notin> fst ` set ((b, y) # post)"
    using di by auto
  have tail: "chain m (Some b) ((b, y) # post)"
    using chain_at [OF ch] by (auto split: option.splits)
  have "\<forall>a \<in> fst ` set ((b, y) # post). cells ?m' a = cells m a"
  proof
    fix a assume a: "a \<in> fst ` set ((b, y) # post)"
    with q_post have "a \<noteq> q" by blast
    moreover from a have "a \<in> set (map fst ?ns)" by auto
    with fresh have "a \<noteq> brk m" by blast
    ultimately show "cells ?m' a = cells m a" by (rule cells_splice_other)
  qed
  then have "chain ?m' (Some b) ((b, y) # post)"
    using tail chain_cong by blast
  then have new: "chain ?m' (Some (brk m)) ((brk m, v) # (b, y) # post)"
    using qb by (simp add: splice_def)
  have fr: "\<forall>a \<in> fst ` set front. cells ?m' a = cells m a"
  proof
    fix a assume a: "a \<in> fst ` set front"
    with q_front have "a \<noteq> q" by blast
    moreover from a have "a \<in> set (map fst ?ns)" by auto
    with fresh have "a \<noteq> brk m" by blast
    ultimately show "cells ?m' a = cells m a" by (rule cells_splice_other)
  qed
  have qc: "cells ?m' (fst (q, x)) = Some \<lparr>val = snd (q, x), nxt = Some (brk m)\<rparr>"
    by (simp add: splice_def)
  have c1: "chain ?m' (head s) (front @ (q, x) # (brk m, v) # (b, y) # post)"
    by (rule chain_splice [OF ch fr qc new])
  have c2: "distinct (map fst (front @ (q, x) # (brk m, v) # (b, y) # post))"
    using di fresh by auto
  have c3: "\<forall>a \<in> set (map fst (front @ (q, x) # (brk m, v) # (b, y) # post)). a < brk ?m'"
  proof
    fix a assume "a \<in> set (map fst (front @ (q, x) # (brk m, v) # (b, y) # post))"
    then have "a = brk m \<or> a \<in> set (map fst ?ns)" by auto
    then consider "a = brk m" | "a \<in> set (map fst ?ns)" by blast
    then have "a \<le> brk m"
    proof cases
      case 1
      then show ?thesis by simp
    next
      case 2
      with bd have "a < brk m" by blast
      then show ?thesis by simp
    qed
    then show "a < brk ?m'" by (simp add: splice_def)
  qed
  have c4: "snd (hd (front @ (q, x) # (brk m, v) # (b, y) # post)) = VAL_MIN"
    using hdv by (simp add: hd_front)
  have c5: "snd (last (front @ (q, x) # (brk m, v) # (b, y) # post)) = VAL_MAX"
    using lastv by simp
  have "sorted_wrt (<) (map snd (tl (front @ [(q, x)])) @ map snd ((b, y) # post))"
    using so by (simp add: tl_front)
  then have "sorted_wrt (<) (map snd (tl (front @ [(q, x)])) @ v # map snd ((b, y) # post))"
    using lt vy by (auto simp: sorted_wrt_append)
  then have c6: "sorted_wrt (<) (map snd (tl (front @ (q, x) # (brk m, v) # (b, y) # post)))"
    by (simp add: tl_front)
  show ?thesis
    unfolding set_ok_def using c1 c2 c3 c4 c5 c6 by simp
qed

lemma chain_unlink:
  assumes ch: "chain m (head s) (front @ (q, x) # (b, y) # post)"
    and di: "distinct (map fst (front @ (q, x) # (b, y) # post))"
    and r: "chain m r post"
  shows "chain (unlink m q x b r) (head s) (front @ (q, x) # post)"
proof -
  let ?m' = "unlink m q x b r"
  have qb: "q \<noteq> b" using di by auto
  have q_front: "q \<notin> fst ` set front" "b \<notin> fst ` set front"
    and q_post: "q \<notin> fst ` set post" "b \<notin> fst ` set post"
    using di by auto
  have "\<forall>a \<in> fst ` set post. cells ?m' a = cells m a"
  proof
    fix a assume a: "a \<in> fst ` set post"
    with q_post have "a \<noteq> q" "a \<noteq> b" by blast+
    then show "cells ?m' a = cells m a" by (rule cells_unlink_other)
  qed
  then have new: "chain ?m' r post"
    using r chain_cong by blast
  have fr: "\<forall>a \<in> fst ` set front. cells ?m' a = cells m a"
  proof
    fix a assume a: "a \<in> fst ` set front"
    with q_front have "a \<noteq> q" "a \<noteq> b" by blast+
    then show "cells ?m' a = cells m a" by (rule cells_unlink_other)
  qed
  have qc: "cells ?m' (fst (q, x)) = Some \<lparr>val = snd (q, x), nxt = r\<rparr>"
    using qb by (simp add: unlink_def)
  show ?thesis
    by (rule chain_splice [OF ch fr qc new])
qed

lemma set_ok_unlink:
  assumes ok: "set_ok m s (front @ (q, x) # (b, y) # c # post)"
    and r: "chain m r (c # post)"
  shows "set_ok (unlink m q x b r) s (front @ (q, x) # c # post)"
proof -
  let ?m' = "unlink m q x b r"
  let ?ns = "front @ (q, x) # (b, y) # c # post"
  from ok have ch: "chain m (head s) ?ns" and di: "distinct (map fst ?ns)"
    and bd: "\<forall>a \<in> set (map fst ?ns). a < brk m"
    and hdv: "snd (hd ?ns) = VAL_MIN" and lastv: "snd (last ?ns) = VAL_MAX"
    and so: "sorted_wrt (<) (map snd (tl ?ns))"
    by (simp_all add: set_ok_def)
  have c1: "chain ?m' (head s) (front @ (q, x) # c # post)"
    by (rule chain_unlink [OF ch di r])
  have c2: "distinct (map fst (front @ (q, x) # c # post))"
    using di by auto
  have c3: "\<forall>a \<in> set (map fst (front @ (q, x) # c # post)). a < brk ?m'"
    using bd by (auto simp: unlink_def)
  have c4: "snd (hd (front @ (q, x) # c # post)) = VAL_MIN"
    using hdv by (simp add: hd_front)
  have c5: "snd (last (front @ (q, x) # c # post)) = VAL_MAX"
    using lastv by simp
  have "sorted_wrt (<) (map snd (tl (front @ [(q, x)])) @ map snd ((b, y) # c # post))"
    using so by (simp add: tl_front)
  then have "sorted_wrt (<) (map snd (tl (front @ [(q, x)])) @ map snd (c # post))"
    by (auto simp: sorted_wrt_append)
  then have c6: "sorted_wrt (<) (map snd (tl (front @ (q, x) # c # post)))"
    by (simp add: tl_front)
  show ?thesis
    unfolding set_ok_def using c1 c2 c3 c4 c5 c6 by simp
qed

lemma walk_chain: "chain m p ns \<Longrightarrow> walk m p acc = Some (Inr (rev acc @ ns))"
proof (induction ns arbitrary: p acc)
  case Nil
  then show ?case by (subst walk.simps) simp
next
  case (Cons n ns)
  then obtain nd where nd: "p = Some (fst n)" "cells m (fst n) = Some nd" "val nd = snd n"
    "chain m (nxt nd) ns"
    by (auto split: option.splits)
  have "walk m p acc = walk m (nxt nd) ((fst n, val nd) # acc)"
    using nd by (subst walk.simps) simp
  also have "\<dots> = Some (Inr (rev ((fst n, val nd) # acc) @ ns))"
    by (rule Cons.IH [OF nd(4)])
  finally show ?case using nd(3) by simp
qed

lemma size_loop_chain:
  "chain m p (ns @ [l]) \<Longrightarrow> sz + int (length ns) \<le> INT_MAX \<Longrightarrow>
   size_loop m p sz = Some (Inr (sz + int (length ns)))"
proof (induction ns arbitrary: p sz)
  case Nil
  then obtain nd where "p = Some (fst l)" "cells m (fst l) = Some nd" "nxt nd = None"
    by (auto split: option.splits)
  then show ?case by (subst size_loop.simps) (simp add: load_def)
next
  case (Cons n ns)
  then obtain nd where nd: "p = Some (fst n)" "cells m (fst n) = Some nd"
    "chain m (nxt nd) (ns @ [l])"
    by (auto split: option.splits)
  then have nn: "nxt nd \<noteq> None" by (cases ns) auto
  have le: "sz + 1 + int (length ns) \<le> INT_MAX" using Cons.prems(2) by simp
  then have "sz \<noteq> INT_MAX" by simp
  then have "size_loop m p sz = size_loop m (nxt nd) (sz + 1)"
    using nd nn by (subst size_loop.simps) (simp add: load_def)
  also have "\<dots> = Some (Inr (sz + 1 + int (length ns)))"
    by (rule Cons.IH [OF nd(3) le])
  finally show ?case by simp
qed

lemma set_size_ok:
  assumes "set_ok m s ns" and "int (length ns) - 2 \<le> INT_MAX"
  shows "set_size m s = Some (Inr (int (length ns) - 2))"
proof -
  from assms(1) obtain h t where ns: "ns = h # t" and t: "t \<noteq> []"
    by (cases ns; cases "tl ns") (auto simp: set_ok_def)
  from assms(1) ns obtain nd where nd: "head s = Some (fst h)" "cells m (fst h) = Some nd"
    "chain m (nxt nd) t"
    by (auto simp: set_ok_def split: option.splits)
  from t obtain t' l where t': "t = t' @ [l]" by (metis append_butlast_last_id)
  have "size_loop m (nxt nd) 0 = Some (Inr (0 + int (length t')))"
    using nd(3) assms(2) unfolding t' ns by (intro size_loop_chain) simp_all
  then show ?thesis using nd ns t' by (simp add: set_size_def load_def)
qed

lemma set_new_ok:
  "set_new m = (s, m') \<Longrightarrow> set_ok m' s [(Suc (brk m), VAL_MIN), (brk m, VAL_MAX)]"
  by (auto simp: set_new_def new_node_def set_ok_def VAL_MIN_def VAL_MAX_def INT_MIN_def INT_MAX_def)

lemma tail_mem_iff:
  assumes so: "sorted_wrt (<) (map snd (tl (front @ (q, x) # (b, y) # post)))"
    and lt: "\<forall>z \<in> snd ` set (tl (front @ [(q, x)])). z < v" and vy: "v \<le> (y::int)"
  shows "(v \<in> snd ` set (tl (front @ (q, x) # (b, y) # post))) = (y = v)"
    and "v \<notin> snd ` set (tl (front @ [(q, x)]))" and "v \<notin> snd ` set post"
proof -
  from so have "sorted_wrt (<) (map snd (tl (front @ [(q, x)])) @ y # map snd post)"
    by (simp add: tl_front)
  then have gt: "\<forall>z \<in> snd ` set post. y < z"
    by (auto simp: sorted_wrt_append)
  show 1: "v \<notin> snd ` set (tl (front @ [(q, x)]))" using lt by auto
  show 2: "v \<notin> snd ` set post" using gt vy by auto
  have "snd ` set (tl (front @ (q, x) # (b, y) # post)) =
        snd ` set (tl (front @ [(q, x)])) \<union> insert y (snd ` set post)"
    by (simp add: tl_front image_Un)
  with 1 2 show "(v \<in> snd ` set (tl (front @ (q, x) # (b, y) # post))) = (y = v)"
    by auto
qed

lemma set_contains_ok:
  assumes ok: "set_ok m s ns" and v: "v \<le> VAL_MAX"
  shows "set_contains m s v = Some (Inr (v \<in> snd ` set (tl ns)))"
proof -
  obtain front q x b y post
    where ns: "ns = front @ (q, x) # (b, y) # post"
      and lt: "\<forall>z \<in> snd ` set (tl (front @ [(q, x)])). z < v" and vy: "v \<le> y"
    by (rule set_ok_split [OF ok v])
  from ok have ch: "chain m (head s) (front @ (q, x) # (b, y) # post)"
    and so: "sorted_wrt (<) (map snd (tl (front @ (q, x) # (b, y) # post)))"
    by (simp_all add: set_ok_def ns)
  from set_contains_chain [OF ch lt vy] tail_mem_iff(1) [OF so lt vy]
  show ?thesis by (simp add: ns)
qed


lemma set_add_cases:
  assumes ok: "set_ok m s ns" and v: "v \<le> VAL_MAX"
  obtains (present) "v \<in> snd ` set (tl ns)" and "set_add m s v = Some (Inr (False, m))"
  | (absent) front q x b y post where "ns = front @ (q, x) # (b, y) # post"
      and "\<forall>z \<in> snd ` set (tl (front @ [(q, x)])). z < v" and "v < y"
      and "v \<notin> snd ` set (tl ns)"
      and "set_add m s v = Some (Inr (True, splice m q x b v))"
      and "set_ok (splice m q x b v) s (front @ (q, x) # (brk m, v) # (b, y) # post)"
proof -
  obtain front q x b y post
    where ns: "ns = front @ (q, x) # (b, y) # post"
      and lt: "\<forall>z \<in> snd ` set (tl (front @ [(q, x)])). z < v" and vy: "v \<le> y"
    by (rule set_ok_split [OF ok v])
  from ok have ch: "chain m (head s) (front @ (q, x) # (b, y) # post)"
    and bd: "\<forall>a \<in> set (map fst ns). a < brk m"
    and so: "sorted_wrt (<) (map snd (tl (front @ (q, x) # (b, y) # post)))"
    by (simp_all add: set_ok_def ns)
  have "q \<noteq> brk m" using bd ns by auto
  note add = set_add_chain [OF ch lt vy this]
  note mem = tail_mem_iff(1) [OF so lt vy]
  show ?thesis
  proof (cases "y = v")
    case True
    with add have 1: "set_add m s v = Some (Inr (False, m))" by simp
    from mem True have 2: "v \<in> snd ` set (tl ns)" by (simp add: ns)
    show ?thesis by (rule present [OF 2 1])
  next
    case False
    with vy have 3: "v < y" by simp
    from set_ok_splice [OF ok [unfolded ns] lt this]
    have 6: "set_ok (splice m q x b v) s (front @ (q, x) # (brk m, v) # (b, y) # post)" .
    from add False have 5: "set_add m s v = Some (Inr (True, splice m q x b v))" by simp
    from mem False have 4: "v \<notin> snd ` set (tl ns)" by (simp add: ns)
    show ?thesis by (rule absent [OF ns lt 3 4 5 6])
  qed
qed

lemma set_remove_cases:
  assumes ok: "set_ok m s ns" and v: "v \<le> VAL_MAX"
  obtains (absent) "v \<notin> snd ` set (tl ns)" and "set_remove m s v = Some (Inr (False, m))"
  | (present) front q x b post r where "ns = front @ (q, x) # (b, v) # post"
      and "v \<notin> snd ` set (tl (front @ [(q, x)]))" and "v \<notin> snd ` set post"
      and "cells m q = Some \<lparr>val = x, nxt = Some b\<rparr>"
      and "cells m b = Some \<lparr>val = v, nxt = r\<rparr>"
      and "set_remove m s v = Some (Inr (True, unlink m q x b r))"
      and "chain (unlink m q x b r) (head s) (front @ (q, x) # post)"
      and "post \<noteq> [] \<Longrightarrow> set_ok (unlink m q x b r) s (front @ (q, x) # post)"
proof -
  obtain front q x b y post
    where ns: "ns = front @ (q, x) # (b, y) # post"
      and lt: "\<forall>z \<in> snd ` set (tl (front @ [(q, x)])). z < v" and vy: "v \<le> y"
    by (rule set_ok_split [OF ok v])
  from ok have ch: "chain m (head s) (front @ (q, x) # (b, y) # post)"
    and di: "distinct (map fst (front @ (q, x) # (b, y) # post))"
    and so: "sorted_wrt (<) (map snd (tl (front @ (q, x) # (b, y) # post)))"
    by (simp_all add: set_ok_def ns)
  have "q \<noteq> b" using di by auto
  from set_remove_chain [OF ch lt vy this] obtain r where r: "chain m r post"
    and rm: "set_remove m s v =
      Some (Inr (if y = v then (True, unlink m q x b r) else (False, m)))"
    by blast
  note mem = tail_mem_iff [OF so lt vy]
  show ?thesis
  proof (cases "y = v")
    case False
    with rm have 1: "set_remove m s v = Some (Inr (False, m))" by simp
    from mem(1) False have 2: "v \<notin> snd ` set (tl ns)" by (simp add: ns)
    show ?thesis by (rule absent [OF 2 1])
  next
    case True
    from ns True have 1: "ns = front @ (q, x) # (b, v) # post" by simp
    from chain_at [of m "head s" "front @ [(q, x)]" "(b, y)" post] ch
    obtain nd where nd: "cells m b = Some nd" "val nd = y" "chain m (nxt nd) post" by auto
    have pd: "cells m q = Some \<lparr>val = x, nxt = Some b\<rparr>"
      by (rule chain_at_node [OF ch])
    have rr: "nxt nd = r"
    proof (cases post)
      case Nil
      with nd(3) r show ?thesis by simp
    next
      case (Cons c post')
      with nd(3) r show ?thesis by simp
    qed
    with nd True have 4: "cells m b = Some \<lparr>val = v, nxt = r\<rparr>" by (cases nd) simp
    from rm True have 5: "set_remove m s v = Some (Inr (True, unlink m q x b r))" by simp
    have 6: "chain (unlink m q x b r) (head s) (front @ (q, x) # post)"
      by (rule chain_unlink [OF ch di r])
    have 7: "set_ok (unlink m q x b r) s (front @ (q, x) # post)" if "post \<noteq> []"
    proof -
      from that obtain c post' where post: "post = c # post'" by (cases post) auto
      from set_ok_unlink [OF ok [unfolded ns post] r [unfolded post]]
      show ?thesis by (simp add: post)
    qed
    show ?thesis by (rule present [OF 1 mem(2) mem(3) pd 4 5 6 7])
  qed
qed

lemma remove_post_nonempty:
  assumes ok: "set_ok m s (front @ (q, x) # (b, v) # post)" and v: "v < VAL_MAX"
  shows "post \<noteq> []"
proof
  assume "post = []"
  then have "snd (last (front @ (q, x) # (b, v) # post)) = v" by simp
  moreover from ok have "snd (last (front @ (q, x) # (b, v) # post)) = VAL_MAX"
    by (simp add: set_ok_def)
  ultimately show False using v by simp
qed

lemma set_add_step:
  assumes ok: "set_ok m s ns" and v: "v \<le> VAL_MAX"
  shows "\<exists>b m' ns'. set_add m s v = Some (Inr (b, m')) \<and> set_ok m' s ns' \<and>
           int (length ns') = int (length ns) + (if b then 1 else 0) \<and>
           snd ` set (tl ns') = insert v (snd ` set (tl ns))"
using ok v
proof (cases rule: set_add_cases)
  case present
  show ?thesis
  proof (intro exI conjI)
    show "set_add m s v = Some (Inr (False, m))" by (rule present(2))
    show "set_ok m s ns" by (rule ok)
    show "int (length ns) = int (length ns) + (if False then 1 else 0)" by simp
    show "snd ` set (tl ns) = insert v (snd ` set (tl ns))" using present(1) by blast
  qed
next
  case (absent front q x b y post)
  show ?thesis
  proof (intro exI conjI)
    show "set_add m s v = Some (Inr (True, splice m q x b v))" by (rule absent(5))
    show "set_ok (splice m q x b v) s (front @ (q, x) # (brk m, v) # (b, y) # post)"
      by (rule absent(6))
    show "int (length (front @ (q, x) # (brk m, v) # (b, y) # post)) =
      int (length ns) + (if True then 1 else 0)"
      by (simp add: absent(1))
    show "snd ` set (tl (front @ (q, x) # (brk m, v) # (b, y) # post)) =
          insert v (snd ` set (tl ns))"
      unfolding absent(1) tl_front by auto
  qed
qed

lemma set_remove_step:
  assumes ok: "set_ok m s ns" and v: "v < VAL_MAX"
  shows "\<exists>b m' ns'. set_remove m s v = Some (Inr (b, m')) \<and> set_ok m' s ns' \<and>
           int (length ns') = int (length ns) - (if b then 1 else 0) \<and>
           b = (v \<in> snd ` set (tl ns)) \<and>
           snd ` set (tl ns') = snd ` set (tl ns) - {v}"
proof -
  from v have v': "v \<le> VAL_MAX" by simp
  from ok v' show ?thesis
  proof (cases rule: set_remove_cases)
    case absent
    show ?thesis
    proof (intro exI conjI)
      show "set_remove m s v = Some (Inr (False, m))" by (rule absent(2))
      show "set_ok m s ns" by (rule ok)
      show "int (length ns) = int (length ns) - (if False then 1 else 0)" by simp
      show "False = (v \<in> snd ` set (tl ns))" using absent(1) by simp
      show "snd ` set (tl ns) = snd ` set (tl ns) - {v}" using absent(1) by blast
    qed
  next
    case (present front q x b post r)
    from remove_post_nonempty [OF ok [unfolded present(1)] v]
    have ne: "post \<noteq> []" .
    then obtain c post' where post: "post = c # post'" by (cases post) auto
    have e1: "snd ` set (tl (front @ (q, x) # post)) =
         snd ` set (tl (front @ [(q, x)])) \<union> snd ` set post"
      unfolding post tl_front by (simp add: image_Un)
    have e2: "snd ` set (tl ns) =
         snd ` set (tl (front @ [(q, x)])) \<union> insert v (snd ` set post)"
      unfolding present(1) tl_front by (simp add: image_Un)
    have e3: "snd ` set (tl (front @ [(q, x)])) \<union> snd ` set post =
         (snd ` set (tl (front @ [(q, x)])) \<union> insert v (snd ` set post)) - {v}"
      using present(2,3) by blast
    show ?thesis
    proof (intro exI conjI)
      show "set_remove m s v = Some (Inr (True, unlink m q x b r))" by (rule present(6))
      show "set_ok (unlink m q x b r) s (front @ (q, x) # post)" by (rule present(8) [OF ne])
      show "int (length (front @ (q, x) # post)) =
          int (length ns) - (if True then 1 else 0)"
        by (simp add: present(1))
      show "True = (v \<in> snd ` set (tl ns))" unfolding e2 by simp
      show "snd ` set (tl (front @ (q, x) # post)) = snd ` set (tl ns) - {v}"
        unfolding e1 e2 by (rule e3)
    qed
  qed
qed


lemma run_ops_ok:
  "set_ok m s ns \<Longrightarrow> \<forall>op \<in> set os. op_safe op \<Longrightarrow>
   \<exists>d' m' ns'. run_ops m s d os = Some (Inr (d', m')) \<and> set_ok m' s ns' \<and>
     int (length ns') - int (length ns) = d' - d \<and> d' - d \<le> int (length os) \<and>
     snd ` set (tl ns') \<subseteq> snd ` set (tl ns) \<union> added os"
proof (induction os arbitrary: m ns d)
  case Nil
  then show ?case by auto
next
  case (Cons op os)
  from Cons.prems(2) have rest: "\<forall>op \<in> set os. op_safe op" and safe: "op_safe op" by auto
  show ?case
  proof (cases op)
    case (Add v)
    with safe have "v \<le> VAL_MAX" by simp
    from set_add_step [OF Cons.prems(1) this] obtain b m1 ns1
      where st: "set_add m s v = Some (Inr (b, m1))" and ok1: "set_ok m1 s ns1"
        and len1: "int (length ns1) = int (length ns) + (if b then 1 else 0)"
        and eq1: "snd ` set (tl ns1) = insert v (snd ` set (tl ns))"
      by blast
    from eq1 have sub1: "snd ` set (tl ns1) \<subseteq> insert v (snd ` set (tl ns))" by simp
    from Cons.IH [OF ok1 rest, of "if b then d + 1 else d"] obtain d' m' ns'
      where r: "run_ops m1 s (if b then d + 1 else d) os = Some (Inr (d', m'))"
        and ok': "set_ok m' s ns'"
        and len': "int (length ns') - int (length ns1) = d' - (if b then d + 1 else d)"
        and bnd': "d' - (if b then d + 1 else d) \<le> int (length os)"
        and sub': "snd ` set (tl ns') \<subseteq> snd ` set (tl ns1) \<union> added os"
      by blast
    have 1: "run_ops m s d (op # os) = Some (Inr (d', m'))"
      using st r Add by simp
    have 2: "int (length ns') - int (length ns) = d' - d"
      using len1 len' by (simp split: if_splits)
    have 3: "d' - d \<le> int (length (op # os))"
      using bnd' by (simp split: if_splits)
    have "snd ` set (tl ns') \<subseteq> snd ` set (tl ns) \<union> insert v (added os)"
      using sub1 sub' by blast
    then have 4: "snd ` set (tl ns') \<subseteq> snd ` set (tl ns) \<union> added (op # os)"
      by (simp only: Add added.simps)
    from 1 ok' 2 3 4 show ?thesis by blast
  next
    case (Remove v)
    with safe have "v < VAL_MAX" by simp
    from set_remove_step [OF Cons.prems(1) this] obtain b m1 ns1
      where st: "set_remove m s v = Some (Inr (b, m1))" and ok1: "set_ok m1 s ns1"
        and len1: "int (length ns1) = int (length ns) - (if b then 1 else 0)"
        and eq1: "snd ` set (tl ns1) = snd ` set (tl ns) - {v}"
      by blast
    from eq1 have sub1: "snd ` set (tl ns1) \<subseteq> snd ` set (tl ns)" by simp
    from Cons.IH [OF ok1 rest, of "if b then d - 1 else d"] obtain d' m' ns'
      where r: "run_ops m1 s (if b then d - 1 else d) os = Some (Inr (d', m'))"
        and ok': "set_ok m' s ns'"
        and len': "int (length ns') - int (length ns1) = d' - (if b then d - 1 else d)"
        and bnd': "d' - (if b then d - 1 else d) \<le> int (length os)"
        and sub': "snd ` set (tl ns') \<subseteq> snd ` set (tl ns1) \<union> added os"
      by blast
    have 1: "run_ops m s d (op # os) = Some (Inr (d', m'))"
      using st r Remove by simp
    have 2: "int (length ns') - int (length ns) = d' - d"
      using len1 len' by (simp split: if_splits)
    have 3: "d' - d \<le> int (length (op # os))"
      using bnd' by (simp split: if_splits)
    have "snd ` set (tl ns') \<subseteq> snd ` set (tl ns) \<union> added os"
      using sub1 sub' by blast
    then have 4: "snd ` set (tl ns') \<subseteq> snd ` set (tl ns) \<union> added (op # os)"
      by (simp only: Remove added.simps)
    from 1 ok' 2 3 4 show ?thesis by blast
  qed
qed

lemma set_ok_invariant:
  assumes ok: "set_ok m s ns" and gt: "\<forall>z \<in> snd ` set (tl ns). VAL_MIN < z"
  shows "set_invariant m s"
proof -
  from ok have ch: "chain m (head s) ns" and len: "2 \<le> length ns"
    and hdv: "snd (hd ns) = VAL_MIN" and lastv: "snd (last ns) = VAL_MAX"
    and so: "sorted_wrt (<) (map snd (tl ns))"
    by (simp_all add: set_ok_def)
  from len obtain h t where ns: "ns = h # t" by (cases ns) auto
  have nodes: "set_nodes m s = Some (Inr ns)"
    using walk_chain [OF ch, of "[]"] by (simp add: set_nodes_def)
  have "sorted_wrt (<) (map snd ns)"
    using so gt hdv by (auto simp: ns)
  moreover have "distinct (map snd (tl ns))"
    using so strict_sorted_iff by blast
  then have "distinct (map snd (butlast (tl ns)))"
    by (simp add: map_butlast distinct_butlast)
  ultimately show ?thesis
    using nodes len hdv lastv by (simp add: set_invariant_def)
qed

lemma op_inner_safe: "op_inner op \<Longrightarrow> op_safe op"
  by (cases op) auto

lemma added_inner: "\<forall>op \<in> set os. op_inner op \<Longrightarrow> \<forall>z \<in> added os. VAL_MIN < z"
  by (induction os rule: added.induct) auto

lemma set_new_ok':
  "set_ok (snd (set_new m0)) (fst (set_new m0)) [(Suc (brk m0), VAL_MIN), (brk m0, VAL_MAX)]"
  by (rule set_new_ok) simp

lemma val_max_in_tail:
  assumes "set_ok m s ns"
  shows "VAL_MAX \<in> snd ` set (tl ns)"
proof -
  from assms obtain h t where ns: "ns = h # t" and t: "t \<noteq> []"
    by (cases ns; cases "tl ns") (auto simp: set_ok_def)
  from assms have "snd (last ns) = VAL_MAX" by (simp add: set_ok_def)
  with ns t have "snd (last t) = VAL_MAX" by simp
  moreover from t have "last t \<in> set t" by simp
  ultimately show ?thesis unfolding ns by (metis image_eqI list.sel(3))
qed


lemma size_loop_overflow:
  "chain m p (ns @ [l]) \<Longrightarrow> sz \<le> INT_MAX \<Longrightarrow> INT_MAX < sz + int (length ns) \<Longrightarrow>
   size_loop m p sz = Some (Inl SignedOverflow)"
proof (induction ns arbitrary: p sz)
  case Nil
  then show ?case by simp
next
  case (Cons n ns)
  then obtain nd where nd: "p = Some (fst n)" "cells m (fst n) = Some nd"
    "chain m (nxt nd) (ns @ [l])"
    by (auto split: option.splits)
  then have nn: "nxt nd \<noteq> None" by (cases ns) auto
  show ?case
  proof (cases "sz = INT_MAX")
    case True
    then show ?thesis using nd nn by (subst size_loop.simps) (simp add: load_def)
  next
    case False
    with Cons.prems(2) have le: "sz + 1 \<le> INT_MAX" by simp
    from Cons.prems(3) have gt: "INT_MAX < sz + 1 + int (length ns)" by simp
    from False have "size_loop m p sz = size_loop m (nxt nd) (sz + 1)"
      using nd nn by (subst size_loop.simps) (simp add: load_def)
    also have "\<dots> = Some (Inl SignedOverflow)"
      by (rule Cons.IH [OF nd(3) le gt])
    finally show ?thesis .
  qed
qed

lemma set_size_general:
  assumes "set_ok m s ns"
  shows "set_size m s =
           (if int (length ns) - 2 \<le> INT_MAX then Some (Inr (int (length ns) - 2))
            else Some (Inl SignedOverflow))"
proof (cases "int (length ns) - 2 \<le> INT_MAX")
  case True
  with set_size_ok [OF assms] show ?thesis by simp
next
  case False
  from assms obtain h t where ns: "ns = h # t" and t: "t \<noteq> []"
    by (cases ns; cases "tl ns") (auto simp: set_ok_def)
  from assms ns obtain nd where nd: "head s = Some (fst h)" "cells m (fst h) = Some nd"
    "chain m (nxt nd) t"
    by (auto simp: set_ok_def split: option.splits)
  from t obtain t' l where t': "t = t' @ [l]" by (metis append_butlast_last_id)
  have z: "(0::int) \<le> INT_MAX" by (simp add: INT_MAX_def)
  from False have "INT_MAX < 0 + int (length t')" by (simp add: ns t')
  from size_loop_overflow [OF nd(3) [unfolded t'] z this]
  have "size_loop m (nxt nd) 0 = Some (Inl SignedOverflow)" .
  with False show ?thesis using nd by (simp add: set_size_def load_def)
qed

lemma run_adds:
  "set_ok m s ns \<Longrightarrow> \<forall>v \<in> set vs. v \<le> VAL_MAX \<Longrightarrow>
   \<exists>d' m' ns'. run_ops m s d (map Add vs) = Some (Inr (d', m')) \<and> set_ok m' s ns' \<and>
     int (length ns') - int (length ns) = d' - d \<and>
     snd ` set (tl ns') = snd ` set (tl ns) \<union> set vs"
proof (induction vs arbitrary: m ns d)
  case Nil
  show ?case
  proof (intro exI conjI)
    show "run_ops m s d (map Add []) = Some (Inr (d, m))" by simp
    show "set_ok m s ns" by (rule Nil.prems(1))
    show "int (length ns) - int (length ns) = d - d" by simp
    show "snd ` set (tl ns) = snd ` set (tl ns) \<union> set []" by simp
  qed
next
  case (Cons v vs)
  from Cons.prems(2) have v: "v \<le> VAL_MAX" and rest: "\<forall>v \<in> set vs. v \<le> VAL_MAX" by auto
  from set_add_step [OF Cons.prems(1) v] obtain b m1 ns1
    where st: "set_add m s v = Some (Inr (b, m1))" and ok1: "set_ok m1 s ns1"
      and len1: "int (length ns1) = int (length ns) + (if b then 1 else 0)"
      and eq1: "snd ` set (tl ns1) = insert v (snd ` set (tl ns))"
    by blast
  from Cons.IH [OF ok1 rest, of "if b then d + 1 else d"] obtain d' m' ns'
    where r: "run_ops m1 s (if b then d + 1 else d) (map Add vs) = Some (Inr (d', m'))"
      and ok': "set_ok m' s ns'"
      and len': "int (length ns') - int (length ns1) = d' - (if b then d + 1 else d)"
      and eq': "snd ` set (tl ns') = snd ` set (tl ns1) \<union> set vs"
    by blast
  show ?case
  proof (intro exI conjI)
    show "run_ops m s d (map Add (v # vs)) = Some (Inr (d', m'))" using st r by simp
    show "set_ok m' s ns'" by (rule ok')
    show "int (length ns') - int (length ns) = d' - d"
      using len1 len' by (simp split: if_splits)
    show "snd ` set (tl ns') = snd ` set (tl ns) \<union> set (v # vs)"
      unfolding eq' eq1 by auto
  qed
qed

lemma tail_length_card:
  assumes "set_ok m s ns"
  shows "length ns = Suc (card (snd ` set (tl ns)))"
proof -
  from assms have so: "sorted_wrt (<) (map snd (tl ns))" and len: "2 \<le> length ns"
    by (simp_all add: set_ok_def)
  from so have "distinct (map snd (tl ns))" using strict_sorted_iff by blast
  then have "card (set (map snd (tl ns))) = length (map snd (tl ns))" by (rule distinct_card)
  then have "card (snd ` set (tl ns)) = length ns - 1" by simp
  with len show ?thesis by simp
qed

lemma many_adds_run:
  "\<exists>m'. run_ops (snd (set_new empty_mem)) (fst (set_new empty_mem)) 0 many_adds =
          Some (Inr (2147483648, m')) \<and>
        set_size m' (fst (set_new empty_mem)) = Some (Inl SignedOverflow)"
proof -
  let ?vs = "[- 1..2147483646] :: int list"
  have set_vs: "set ?vs = {- 1..2147483646}" by (rule set_upto)
  have le: "\<forall>v \<in> set ?vs. v \<le> VAL_MAX"
    unfolding set_vs by (simp add: VAL_MAX_def INT_MAX_def)
  from run_adds [OF set_new_ok' le, of empty_mem 0] obtain d m' ns'
    where r: "run_ops (snd (set_new empty_mem)) (fst (set_new empty_mem)) 0 (map Add ?vs) =
          Some (Inr (d, m'))"
      and ok': "set_ok m' (fst (set_new empty_mem)) ns'"
      and len: "int (length ns') -
          int (length [(Suc (brk empty_mem), VAL_MIN), (brk empty_mem, VAL_MAX)]) = d - 0"
      and vals: "snd ` set (tl ns') =
          snd ` set (tl [(Suc (brk empty_mem), VAL_MIN), (brk empty_mem, VAL_MAX)]) \<union> set ?vs"
    by blast
  from vals have "snd ` set (tl ns') = insert VAL_MAX {- 1..2147483646}"
    unfolding set_vs by simp
  then have "card (snd ` set (tl ns')) = Suc (card {- 1..2147483646 :: int})"
    by (simp add: VAL_MAX_def INT_MAX_def)
  also have "\<dots> = 2147483649" by simp
  finally have "length ns' = 2147483650"
    using tail_length_card [OF ok'] by simp
  with len have d: "d = 2147483648" and big: "\<not> int (length ns') - 2 \<le> INT_MAX"
    by (simp_all add: INT_MAX_def)
  from set_size_general [OF ok'] big
  have "set_size m' (fst (set_new empty_mem)) = Some (Inl SignedOverflow)" by simp
  with r d show ?thesis unfolding many_adds_def by blast
qed

lemma members_tail:
  assumes "set_ok m s ns"
  shows "members ns = snd ` set (tl ns) - {VAL_MAX}"
proof -
  from assms obtain h t where ns: "ns = h # t" and t: "t \<noteq> []"
    by (cases ns; cases "tl ns") (auto simp: set_ok_def)
  from t obtain t' l where t': "t = t' @ [l]" by (metis append_butlast_last_id)
  from assms have "snd (last ns) = VAL_MAX" and "sorted_wrt (<) (map snd (tl ns))"
    by (simp_all add: set_ok_def)
  then have l: "snd l = VAL_MAX" and lt: "\<forall>z \<in> snd ` set t'. z < VAL_MAX"
    by (auto simp: ns t' sorted_wrt_append)
  from lt have "VAL_MAX \<notin> snd ` set t'" by auto
  then show ?thesis by (auto simp: members_def ns t' l)
qed

lemma members_iff:
  assumes "set_ok m s ns" and "v < VAL_MAX"
  shows "v \<in> members ns \<longleftrightarrow> v \<in> snd ` set (tl ns)"
  using assms(2) by (simp add: members_tail [OF assms(1)])

lemma sorted_insert_mid:
  fixes v :: int
  assumes "sorted_wrt (<) (xs @ x # y # ys)" and "x < v" and "v < y"
  shows "sorted_wrt (<) (xs @ x # v # y # ys)"
proof -
  from assms(1) have 1: "sorted_wrt (<) xs" and 2: "\<forall>a \<in> set xs. a < x"
    and 3: "\<forall>b \<in> set ys. y < b" and 4: "sorted_wrt (<) ys" and 5: "x < y"
    and 6: "\<forall>a \<in> set xs. \<forall>b \<in> set (y # ys). a < b"
    by (auto simp: sorted_wrt_append)
  from 2 assms(2) have 7: "\<forall>a \<in> set xs. a < v" by auto
  from 3 assms(3) have 8: "\<forall>b \<in> set ys. v < b" by auto
  from 3 5 have 9: "\<forall>b \<in> set ys. x < b" by auto
  show ?thesis
    using 1 2 3 4 5 6 7 8 9 assms(2,3) by (auto simp: sorted_wrt_append)
qed

lemma sorted_delete_mid:
  fixes y :: int
  assumes "sorted_wrt (<) (xs @ x # y # ys)"
  shows "sorted_wrt (<) (xs @ x # ys)" and "\<forall>a \<in> set (xs @ [x]). a < y"
    and "\<forall>b \<in> set ys. y < b"
  using assms by (auto simp: sorted_wrt_append)

lemma last_front_less:
  assumes ok: "set_ok m s (front @ (q, x) # rest)"
    and lt: "\<forall>z \<in> snd ` set (tl (front @ [(q, x)])). z < v" and v: "VAL_MIN < v"
  shows "x < v"
proof (cases front)
  case Nil
  from ok have "snd (hd (front @ (q, x) # rest)) = VAL_MIN" by (simp add: set_ok_def)
  with Nil v show ?thesis by simp
next
  case (Cons h f)
  with lt show ?thesis by simp
qed


text \<open>
  Beyond \<open>VAL_MAX\<close> no node stops the traversal: it runs past the maximum sentinel.
\<close>

lemma set_add_beyond_val_max:
  "map_option (map_sum id fst)
     (set_add (snd (set_new empty_mem)) (fst (set_new empty_mem)) (VAL_MAX + 1)) =
     Some (Inl NullDeref)"
  by code_simp

section \<open>The claims about the set\<close>

text \<open>
  C1, as amended. For every sequence of add and remove operations on C \<^verbatim>\<open>int\<close> values
  in which no remove targets \<open>VAL_MAX\<close>, applied to a freshly created set, every
  operation returns, and \<^verbatim>\<open>set_size\<close> then returns the number of adds that returned
  true minus the number of removes that returned true, as long as that number is at
  most \<open>INT_MAX\<close>; beyond it the \<^verbatim>\<open>int\<close> counter of \<^verbatim>\<open>set_size\<close> overflows.
\<close>

theorem size_counts:
  assumes new: "set_new m0 = (s, m)" and safe: "\<forall>x \<in> set os. op_safe x"
  shows "\<exists>d m'. run_ops m s 0 os = Some (Inr (d, m')) \<and>
           set_size m' s =
             (if d \<le> INT_MAX then Some (Inr d) else Some (Inl SignedOverflow))"
proof -
  from run_ops_ok [OF set_new_ok [OF new] safe, of 0] obtain d m' ns'
    where r: "run_ops m s 0 os = Some (Inr (d, m'))" and ok': "set_ok m' s ns'"
      and len': "int (length ns') - int (length [(Suc (brk m0), VAL_MIN), (brk m0, VAL_MAX)]) = d - 0"
    by blast
  from len' have d: "int (length ns') - 2 = d" by simp
  from set_size_general [OF ok'] d
  have "set_size m' s = (if d \<le> INT_MAX then Some (Inr d) else Some (Inl SignedOverflow))"
    by simp
  with r show ?thesis by blast
qed

theorem size_counts_witness:
  "set_new empty_mem = (fst (set_new empty_mem), snd (set_new empty_mem)) \<and>
   list_all op_safe [Add 5, Add 7, Remove 5, Add 7, Remove 9, Add VAL_MAX] \<and>
   size_after (snd (set_new empty_mem)) (fst (set_new empty_mem))
     [Add 5, Add 7, Remove 5, Add 7, Remove 9, Add VAL_MAX] = Some (Inr (1, 1))"
proof -
  let ?os = "[Add 5, Add 7, Remove 5, Add 7, Remove 9, Add VAL_MAX]"
  have h1: "set_new empty_mem = (fst (set_new empty_mem), snd (set_new empty_mem))" by simp
  have h2: "\<forall>x \<in> set ?os. op_safe x" by (simp add: VAL_MAX_def INT_MAX_def)
  from size_counts [OF h1 h2] obtain d m'
    where r: "run_ops (snd (set_new empty_mem)) (fst (set_new empty_mem)) 0 ?os =
        Some (Inr (d, m'))"
      and sz: "set_size m' (fst (set_new empty_mem)) =
        (if d \<le> INT_MAX then Some (Inr d) else Some (Inl SignedOverflow))"
    by blast
  have c: "map_option (map_sum id fst)
      (run_ops (snd (set_new empty_mem)) (fst (set_new empty_mem)) 0 ?os) = Some (Inr 1)"
    by code_simp
  with r have "d = 1" by simp
  with r sz have "size_after (snd (set_new empty_mem)) (fst (set_new empty_mem)) ?os =
      Some (Inr (1, 1))"
    by (simp add: size_after_def INT_MAX_def)
  with h1 h2 show ?thesis by (simp add: list_all_iff)
qed

text \<open>
  C1 as stated fails in two ways. On a new set \<^verbatim>\<open>set_remove(set, VAL_MAX)\<close> returns true
  (the count is \<open>-1\<close>), it has unlinked and freed the maximum sentinel, and \<^verbatim>\<open>set_size\<close>
  then dereferences \<^verbatim>\<open>NULL\<close>. And after the \<open>INT_MAX + 1\<close> insertions of \<open>many_adds\<close>,
  which all return true, \<^verbatim>\<open>set_size\<close> increments its counter at \<open>INT_MAX\<close>.
\<close>

theorem size_counts_counterexample:
  "map_option (map_sum id fst)
     (run_ops (snd (set_new empty_mem)) (fst (set_new empty_mem)) 0 [Remove VAL_MAX]) =
     Some (Inr (- 1)) \<and>
   size_after (snd (set_new empty_mem)) (fst (set_new empty_mem)) [Remove VAL_MAX] =
     Some (Inl NullDeref) \<and>
   map_option (map_sum id fst)
     (run_ops (snd (set_new empty_mem)) (fst (set_new empty_mem)) 0 many_adds) =
     Some (Inr 2147483648) \<and>
   size_after (snd (set_new empty_mem)) (fst (set_new empty_mem)) many_adds =
     Some (Inl SignedOverflow)"
proof -
  have 1: "map_option (map_sum id fst)
     (run_ops (snd (set_new empty_mem)) (fst (set_new empty_mem)) 0 [Remove VAL_MAX]) =
     Some (Inr (- 1))" by code_simp
  have 2: "size_after (snd (set_new empty_mem)) (fst (set_new empty_mem)) [Remove VAL_MAX] =
     Some (Inl NullDeref)" by code_simp
  from many_adds_run obtain m'
    where r: "run_ops (snd (set_new empty_mem)) (fst (set_new empty_mem)) 0 many_adds =
          Some (Inr (2147483648, m'))"
      and sz: "set_size m' (fst (set_new empty_mem)) = Some (Inl SignedOverflow)"
    by blast
  from r have 3: "map_option (map_sum id fst)
     (run_ops (snd (set_new empty_mem)) (fst (set_new empty_mem)) 0 many_adds) =
     Some (Inr 2147483648)" by simp
  from r sz have 4: "size_after (snd (set_new empty_mem)) (fst (set_new empty_mem)) many_adds =
     Some (Inl SignedOverflow)" by (simp add: size_after_def)
  from 1 2 3 4 show ?thesis by blast
qed

text \<open>
  C9, as amended. Every sequence of add and remove operations on C \<^verbatim>\<open>int\<close> values in
  which no add inserts \<open>VAL_MIN\<close> and no remove targets \<open>VAL_MAX\<close>, applied to a freshly
  created set, returns and preserves the structural invariant: the values increase
  strictly along the chain, the minimum sentinel is first, the maximum sentinel is
  last and no value occurs twice between the sentinels.
\<close>

theorem invariant_preserved:
  assumes new: "set_new m0 = (s, m)" and inner: "\<forall>x \<in> set os. op_inner x"
  shows "invariant_after m s os = Some (Inr True)"
proof -
  from inner have safe: "\<forall>x \<in> set os. op_safe x" using op_inner_safe by blast
  from run_ops_ok [OF set_new_ok [OF new] safe, of 0] obtain d m' ns'
    where r: "run_ops m s 0 os = Some (Inr (d, m'))" and ok': "set_ok m' s ns'"
      and sub: "snd ` set (tl ns') \<subseteq>
         snd ` set (tl [(Suc (brk m0), VAL_MIN), (brk m0, VAL_MAX)]) \<union> added os"
    by blast
  have "VAL_MIN < VAL_MAX" by (simp add: VAL_MIN_def VAL_MAX_def INT_MIN_def INT_MAX_def)
  with sub added_inner [OF inner] have "\<forall>z \<in> snd ` set (tl ns'). VAL_MIN < z" by auto
  from set_ok_invariant [OF ok' this] r show ?thesis by (simp add: invariant_after_def)
qed

theorem invariant_preserved_witness:
  "set_new empty_mem = (fst (set_new empty_mem), snd (set_new empty_mem)) \<and>
   list_all op_inner [Add 5, Add 7, Remove 5, Add 7, Remove 9, Add VAL_MAX] \<and>
   invariant_after (snd (set_new empty_mem)) (fst (set_new empty_mem))
     [Add 5, Add 7, Remove 5, Add 7, Remove 9, Add VAL_MAX] = Some (Inr True)"
proof -
  let ?os = "[Add 5, Add 7, Remove 5, Add 7, Remove 9, Add VAL_MAX]"
  have h1: "set_new empty_mem = (fst (set_new empty_mem), snd (set_new empty_mem))" by simp
  have h2: "\<forall>x \<in> set ?os. op_inner x"
    by (simp add: VAL_MAX_def INT_MAX_def VAL_MIN_def INT_MIN_def)
  from h1 h2 invariant_preserved [OF h1 h2] show ?thesis by (simp add: list_all_iff)
qed

text \<open>
  C9 as stated fails twice on a new set: after \<^verbatim>\<open>set_add(set, VAL_MIN)\<close> the chain
  carries \<open>VAL_MIN\<close> twice in a row, and after \<^verbatim>\<open>set_remove(set, VAL_MAX)\<close> the maximum
  sentinel is gone.
\<close>

theorem invariant_preserved_counterexample:
  "invariant_after (snd (set_new empty_mem)) (fst (set_new empty_mem)) [Add VAL_MIN] =
     Some (Inr False) \<and>
   invariant_after (snd (set_new empty_mem)) (fst (set_new empty_mem)) [Remove VAL_MAX] =
     Some (Inr False)"
  by code_simp


text \<open>
  C2, as amended. Let the set satisfy the structural invariant and let \<open>v\<close> be a C
  \<^verbatim>\<open>int\<close> other than the sentinel values \<open>VAL_MIN\<close> and \<open>VAL_MAX\<close>. If \<open>v\<close> is a member
  (a node between the sentinels carries it), \<^verbatim>\<open>set_add\<close> returns false and the store is
  unchanged. If it is not, \<^verbatim>\<open>set_add\<close> returns true and the store differs in that a new
  node of value \<open>v\<close> stands between a node \<open>q\<close> of value \<open>x < v\<close> and its former
  successor \<open>b\<close> of value \<open>y > v\<close>, and the structural invariant holds again.
\<close>

theorem set_add_spec:
  assumes inv: "set_inv m s ns" and lo: "VAL_MIN < v" and hi: "v < VAL_MAX"
  shows "(v \<in> members ns \<and> set_add m s v = Some (Inr (False, m))) \<or>
         (v \<notin> members ns \<and>
          (\<exists>front q x b y post.
             ns = front @ (q, x) # (b, y) # post \<and> x < v \<and> v < y \<and>
             set_add m s v = Some (Inr (True, splice m q x b v)) \<and>
             set_inv (splice m q x b v) s (front @ (q, x) # (brk m, v) # (b, y) # post)))"
proof -
  from inv have ok: "set_ok m s ns" and so: "sorted_wrt (<) (map snd ns)"
    by (simp_all add: set_inv_def)
  from hi have le: "v \<le> VAL_MAX" by simp
  from ok le show ?thesis
  proof (cases rule: set_add_cases)
    case present
    with members_iff [OF ok hi] show ?thesis by simp
  next
    case (absent front q x b y post)
    from absent(4) members_iff [OF ok hi] have nm: "v \<notin> members ns" by simp
    from last_front_less [OF ok [unfolded absent(1)] absent(2) lo] have xv: "x < v" .
    from so have "sorted_wrt (<) (map snd front @ x # y # map snd post)"
      by (simp add: absent(1))
    from sorted_insert_mid [OF this xv absent(3)]
    have "sorted_wrt (<) (map snd (front @ (q, x) # (brk m, v) # (b, y) # post))" by simp
    with absent(6)
    have inv': "set_inv (splice m q x b v) s (front @ (q, x) # (brk m, v) # (b, y) # post)"
      by (simp add: set_inv_def)
    have "\<exists>front q x b y post.
             ns = front @ (q, x) # (b, y) # post \<and> x < v \<and> v < y \<and>
             set_add m s v = Some (Inr (True, splice m q x b v)) \<and>
             set_inv (splice m q x b v) s (front @ (q, x) # (brk m, v) # (b, y) # post)"
      by (intro exI conjI) (rule absent(1) xv absent(3) absent(5) inv')+
    with nm show ?thesis by blast
  qed
qed

theorem set_add_spec_witness:
  "set_inv (splice (snd (set_new empty_mem)) 1 VAL_MIN 0 3) (fst (set_new empty_mem))
     [(1, VAL_MIN), (2, 3), (0, VAL_MAX)] \<and>
   VAL_MIN < 3 \<and> 3 < VAL_MAX \<and> VAL_MIN < 5 \<and> 5 < VAL_MAX \<and>
   set_add (splice (snd (set_new empty_mem)) 1 VAL_MIN 0 3) (fst (set_new empty_mem)) 3 =
     Some (Inr (False, splice (snd (set_new empty_mem)) 1 VAL_MIN 0 3)) \<and>
   map_option (map_sum id fst)
     (set_add (splice (snd (set_new empty_mem)) 1 VAL_MIN 0 3) (fst (set_new empty_mem)) 5) =
     Some (Inr True)"
proof -
  let ?m = "splice (snd (set_new empty_mem)) 1 VAL_MIN 0 3"
  let ?s = "fst (set_new empty_mem)"
  let ?ns = "[(1, VAL_MIN), (2, 3), (0, VAL_MAX)] :: (addr \<times> val_t) list"
  have inv: "set_inv ?m ?s ?ns" by code_simp
  have b3: "VAL_MIN < 3" "3 < VAL_MAX" and b5: "VAL_MIN < 5" "5 < VAL_MAX"
    by (simp_all add: VAL_MAX_def INT_MAX_def VAL_MIN_def INT_MIN_def)
  have m3: "3 \<in> members ?ns" and m5: "5 \<notin> members ?ns"
    by (simp_all add: members_def VAL_MIN_def INT_MIN_def)
  from set_add_spec [OF inv b3] m3 have a3: "set_add ?m ?s 3 = Some (Inr (False, ?m))" by simp
  from set_add_spec [OF inv b5] m5
  have a5: "map_option (map_sum id fst) (set_add ?m ?s 5) = Some (Inr True)" by auto
  from inv b3 b5 a3 a5 show ?thesis by simp
qed

text \<open>
  C2 as stated fails at the sentinel values. A new set has no member (its size is 0),
  yet \<^verbatim>\<open>set_add(set, VAL_MAX)\<close> returns false and splices nothing; and
  \<^verbatim>\<open>set_add(set, VAL_MIN)\<close> returns true but links its node behind the minimum sentinel,
  which carries the same value, so the chain is no longer strictly increasing.
\<close>

theorem set_add_spec_counterexample:
  "set_size (snd (set_new empty_mem)) (fst (set_new empty_mem)) = Some (Inr 0) \<and>
   map_option (map_sum id fst)
     (set_add (snd (set_new empty_mem)) (fst (set_new empty_mem)) VAL_MAX) =
     Some (Inr False) \<and>
   map_option (map_sum id fst)
     (set_add (snd (set_new empty_mem)) (fst (set_new empty_mem)) VAL_MIN) =
     Some (Inr True) \<and>
   invariant_after (snd (set_new empty_mem)) (fst (set_new empty_mem)) [Add VAL_MIN] =
     Some (Inr False)"
  by code_simp

text \<open>
  C3, as amended. Let the set satisfy the structural invariant and let \<open>v\<close> be a C
  \<^verbatim>\<open>int\<close> other than \<open>VAL_MAX\<close>. If \<open>v\<close> is a member, exactly one node \<open>b\<close> of the chain
  carries it; \<^verbatim>\<open>set_remove\<close> returns true, the successor \<open>r\<close> of \<open>b\<close> becomes the
  successor of its predecessor \<open>q\<close>, \<open>b\<close> is freed, and the chain is the old one
  without \<open>b\<close>, the structural invariant holding again. If \<open>v\<close> is not a member,
  \<^verbatim>\<open>set_remove\<close> returns false and the store is unchanged.
\<close>

theorem set_remove_spec:
  assumes inv: "set_inv m s ns" and hi: "v < VAL_MAX"
  shows "(v \<in> members ns \<and>
          (\<exists>front q x b post r.
             ns = front @ (q, x) # (b, v) # post \<and>
             v \<notin> snd ` set (front @ [(q, x)]) \<and> v \<notin> snd ` set post \<and>
             cells m q = Some \<lparr>val = x, nxt = Some b\<rparr> \<and>
             cells m b = Some \<lparr>val = v, nxt = r\<rparr> \<and>
             set_remove m s v = Some (Inr (True, unlink m q x b r)) \<and>
             set_inv (unlink m q x b r) s (front @ (q, x) # post))) \<or>
         (v \<notin> members ns \<and> set_remove m s v = Some (Inr (False, m)))"
proof -
  from inv have ok: "set_ok m s ns" and so: "sorted_wrt (<) (map snd ns)"
    by (simp_all add: set_inv_def)
  from hi have le: "v \<le> VAL_MAX" by simp
  from ok le show ?thesis
  proof (cases rule: set_remove_cases)
    case absent
    with members_iff [OF ok hi] show ?thesis by simp
  next
    case (present front q x b post r)
    have "v \<in> snd ` set (tl ns)" unfolding present(1) tl_front by simp
    with members_iff [OF ok hi] have mem: "v \<in> members ns" by simp
    from so have s0: "sorted_wrt (<) (map snd front @ x # v # map snd post)"
      by (simp add: present(1))
    from sorted_delete_mid(1) [OF s0]
    have s1: "sorted_wrt (<) (map snd (front @ (q, x) # post))" by simp
    from sorted_delete_mid(2) [OF s0]
    have nf: "v \<notin> snd ` set (front @ [(q, x)])" by auto
    from remove_post_nonempty [OF ok [unfolded present(1)] hi] have "post \<noteq> []" .
    from present(8) [OF this] s1
    have inv': "set_inv (unlink m q x b r) s (front @ (q, x) # post)"
      by (simp add: set_inv_def)
    have "\<exists>front q x b post r.
             ns = front @ (q, x) # (b, v) # post \<and>
             v \<notin> snd ` set (front @ [(q, x)]) \<and> v \<notin> snd ` set post \<and>
             cells m q = Some \<lparr>val = x, nxt = Some b\<rparr> \<and>
             cells m b = Some \<lparr>val = v, nxt = r\<rparr> \<and>
             set_remove m s v = Some (Inr (True, unlink m q x b r)) \<and>
             set_inv (unlink m q x b r) s (front @ (q, x) # post)"
      by (intro exI conjI)
         (rule present(1) nf present(3) present(4) present(5) present(6) inv')+
    with mem show ?thesis by blast
  qed
qed

theorem set_remove_spec_witness:
  "set_inv (splice (snd (set_new empty_mem)) 1 VAL_MIN 0 3) (fst (set_new empty_mem))
     [(1, VAL_MIN), (2, 3), (0, VAL_MAX)] \<and>
   3 < VAL_MAX \<and> 5 < VAL_MAX \<and>
   set_remove (splice (snd (set_new empty_mem)) 1 VAL_MIN 0 3) (fst (set_new empty_mem)) 5 =
     Some (Inr (False, splice (snd (set_new empty_mem)) 1 VAL_MIN 0 3)) \<and>
   map_option (map_sum id fst)
     (set_remove (splice (snd (set_new empty_mem)) 1 VAL_MIN 0 3) (fst (set_new empty_mem)) 3) =
     Some (Inr True)"
proof -
  let ?m = "splice (snd (set_new empty_mem)) 1 VAL_MIN 0 3"
  let ?s = "fst (set_new empty_mem)"
  let ?ns = "[(1, VAL_MIN), (2, 3), (0, VAL_MAX)] :: (addr \<times> val_t) list"
  have inv: "set_inv ?m ?s ?ns" by code_simp
  have b3: "3 < VAL_MAX" and b5: "5 < VAL_MAX" by (simp_all add: VAL_MAX_def INT_MAX_def)
  have m3: "3 \<in> members ?ns" and m5: "5 \<notin> members ?ns"
    by (simp_all add: members_def VAL_MIN_def INT_MIN_def)
  from set_remove_spec [OF inv b5] m5
  have a5: "set_remove ?m ?s 5 = Some (Inr (False, ?m))" by simp
  from set_remove_spec [OF inv b3] m3
  have a3: "map_option (map_sum id fst) (set_remove ?m ?s 3) = Some (Inr True)" by auto
  from inv b3 b5 a3 a5 show ?thesis by simp
qed

text \<open>
  C3 as stated fails at \<open>VAL_MAX\<close>: a new set has no member (its size is 0), yet
  \<^verbatim>\<open>set_remove(set, VAL_MAX)\<close> returns true and changes the set: it unlinks and frees
  the maximum sentinel, and \<^verbatim>\<open>set_size\<close> then dereferences \<^verbatim>\<open>NULL\<close>.
\<close>

theorem set_remove_spec_counterexample:
  "set_size (snd (set_new empty_mem)) (fst (set_new empty_mem)) = Some (Inr 0) \<and>
   map_option (map_sum id fst)
     (set_remove (snd (set_new empty_mem)) (fst (set_new empty_mem)) VAL_MAX) =
     Some (Inr True) \<and>
   size_after (snd (set_new empty_mem)) (fst (set_new empty_mem)) [Remove VAL_MAX] =
     Some (Inl NullDeref)"
  by code_simp

text \<open>
  C8, as amended. Let the set satisfy the sentinel invariant and let \<open>v\<close> be a C \<^verbatim>\<open>int\<close>
  other than \<open>VAL_MAX\<close>. After \<^verbatim>\<open>set_add(set, v)\<close>, whatever it returned,
  \<^verbatim>\<open>set_contains(set, v)\<close> returns true, \<^verbatim>\<open>set_remove(set, v)\<close> right after returns true,
  and \<^verbatim>\<open>set_contains(set, v)\<close> then returns false.
\<close>

theorem add_contains_remove:
  assumes ok: "set_ok m s ns" and v: "v < VAL_MAX"
  shows "round_trip m s v = Some (Inr (True, True, False))"
proof -
  from v have v': "v \<le> VAL_MAX" by simp
  from set_add_step [OF ok v'] obtain a m1 ns1
    where add: "set_add m s v = Some (Inr (a, m1))" and ok1: "set_ok m1 s ns1"
      and in1: "snd ` set (tl ns1) = insert v (snd ` set (tl ns))"
    by blast
  from in1 have mem1: "v \<in> snd ` set (tl ns1)" by simp
  from set_contains_ok [OF ok1 v'] mem1
  have c1: "set_contains m1 s v = Some (Inr True)" by simp
  from set_remove_step [OF ok1 v] obtain r m2 ns2
    where rm: "set_remove m1 s v = Some (Inr (r, m2))" and ok2: "set_ok m2 s ns2"
      and r: "r = (v \<in> snd ` set (tl ns1))"
      and in2: "snd ` set (tl ns2) = snd ` set (tl ns1) - {v}"
    by blast
  from in2 have mem2: "v \<notin> snd ` set (tl ns2)" by simp
  from set_contains_ok [OF ok2 v'] mem2
  have c2: "set_contains m2 s v = Some (Inr False)" by simp
  from add c1 rm r mem1 c2 show ?thesis
    by (simp add: round_trip_def bind_result_def)
qed

theorem add_contains_remove_witness:
  "set_ok (snd (set_new empty_mem)) (fst (set_new empty_mem)) [(1, VAL_MIN), (0, VAL_MAX)] \<and>
   7 < VAL_MAX \<and>
   round_trip (snd (set_new empty_mem)) (fst (set_new empty_mem)) 7 =
     Some (Inr (True, True, False))"
proof -
  have ok: "set_ok (snd (set_new empty_mem)) (fst (set_new empty_mem))
     [(1, VAL_MIN), (0, VAL_MAX)]" by code_simp
  have v: "7 < VAL_MAX" by (simp add: VAL_MAX_def INT_MAX_def)
  from ok v add_contains_remove [OF ok v] show ?thesis by simp
qed

text \<open>
  C8 as stated fails at \<open>v = VAL_MAX\<close>: on a new set \<^verbatim>\<open>set_add\<close> returns false,
  \<^verbatim>\<open>set_contains\<close> true, \<^verbatim>\<open>set_remove\<close> true, having freed the maximum sentinel, and
  the last \<^verbatim>\<open>set_contains\<close> runs off the end of the chain.
\<close>

theorem add_contains_remove_counterexample:
  "round_trip (snd (set_new empty_mem)) (fst (set_new empty_mem)) VAL_MAX =
     Some (Inl NullDeref) \<and>
   map_option (map_sum id fst)
     (set_add (snd (set_new empty_mem)) (fst (set_new empty_mem)) VAL_MAX) =
     Some (Inr False) \<and>
   set_contains (snd (set_new empty_mem)) (fst (set_new empty_mem)) VAL_MAX =
     Some (Inr True) \<and>
   map_option (map_sum id fst)
     (set_remove (snd (set_new empty_mem)) (fst (set_new empty_mem)) VAL_MAX) =
     Some (Inr True)"
  by code_simp

text \<open>
  C10. For every set that satisfies the sentinel invariant, and so for a freshly
  created one, \<^verbatim>\<open>set_contains(set, VAL_MAX)\<close> returns true, although only the maximum
  sentinel carries that value.
\<close>

theorem contains_val_max:
  assumes ok: "set_ok m s ns"
  shows "set_contains m s VAL_MAX = Some (Inr True) \<and>
         set_contains (snd (set_new m0)) (fst (set_new m0)) VAL_MAX = Some (Inr True)"
proof -
  have le: "VAL_MAX \<le> VAL_MAX" by simp
  from set_contains_ok [OF ok le] val_max_in_tail [OF ok]
  have 1: "set_contains m s VAL_MAX = Some (Inr True)" by simp
  from set_contains_ok [OF set_new_ok' le] val_max_in_tail [OF set_new_ok']
  have 2: "set_contains (snd (set_new m0)) (fst (set_new m0)) VAL_MAX = Some (Inr True)"
    by simp
  from 1 2 show ?thesis by simp
qed

theorem contains_val_max_witness:
  "set_ok (splice (snd (set_new empty_mem)) 1 VAL_MIN 0 3) (fst (set_new empty_mem))
     [(1, VAL_MIN), (2, 3), (0, VAL_MAX)] \<and>
   set_contains (splice (snd (set_new empty_mem)) 1 VAL_MIN 0 3) (fst (set_new empty_mem))
     VAL_MAX = Some (Inr True) \<and>
   set_contains (snd (set_new empty_mem)) (fst (set_new empty_mem)) VAL_MAX = Some (Inr True)"
proof -
  have ok: "set_ok (splice (snd (set_new empty_mem)) 1 VAL_MIN 0 3) (fst (set_new empty_mem))
     [(1, VAL_MIN), (2, 3), (0, VAL_MAX)]" by code_simp
  from ok contains_val_max [OF ok, of empty_mem] show ?thesis by simp
qed


section \<open>Properties of the random stream\<close>

lemma bitlen_pos: "0 < p \<Longrightarrow> 0 < bitlen p"
  by (subst bitlen.simps) simp

lemma bitlen_pow: "0 < p \<Longrightarrow> 2 ^ (bitlen p - 1) \<le> p"
proof (induction p rule: bitlen.induct)
  case (1 n)
  show ?case
  proof (cases "n div 2 = 0")
    case True
    with "1.prems" have "bitlen (n div 2) = 0" by (subst bitlen.simps) simp
    with "1.prems" have "bitlen n = 1" by (subst bitlen.simps) simp
    with "1.prems" show ?thesis by simp
  next
    case False
    with "1.prems" have pos: "0 < n div 2" by (simp add: pos_imp_zdiv_pos_iff)
    from "1.prems" have "\<not> n \<le> 0" by simp
    from "1.IH" [OF this pos] have ih: "2 ^ (bitlen (n div 2) - 1) \<le> n div 2" .
    from bitlen_pos [OF pos] obtain k where k: "bitlen (n div 2) = Suc k"
      by (cases "bitlen (n div 2)") auto
    from "1.prems" have "bitlen n = Suc (bitlen (n div 2))" by (subst bitlen.simps) simp
    then have "(2::int) ^ (bitlen n - 1) = 2 * 2 ^ (bitlen (n div 2) - 1)"
      using k by simp
    also have "\<dots> \<le> 2 * (n div 2)" using ih by simp
    also have "\<dots> \<le> n" by simp
    finally show ?thesis .
  qed
qed

lemma round53_bounds:
  assumes "0 \<le> p"
  shows "0 \<le> round53 p" and "2 * round53 p \<le> 2 * p + 2 ^ (bitlen p - 53)"
proof -
  define e where "e = bitlen p - 53"
  define q where "q = p div 2 ^ e"
  define r where "r = p mod 2 ^ e"
  have p: "p = q * 2 ^ e + r" unfolding q_def r_def by (rule div_mult_mod_eq [symmetric])
  have q0: "0 \<le> q" using assms by (simp add: q_def pos_imp_zdiv_nonneg_iff)
  have r0: "0 \<le> r" by (simp add: r_def)
  have rd: "round53 p =
      (if 2 * r < 2 ^ e \<or> (2 * r = 2 ^ e \<and> even q) then q * 2 ^ e else (q + 1) * 2 ^ e)"
    by (simp add: round53_def Let_def e_def q_def r_def)
  show "0 \<le> round53 p" using q0 by (simp add: rd)
  show "2 * round53 p \<le> 2 * p + 2 ^ (bitlen p - 53)"
  proof (cases "2 * r < 2 ^ e \<or> (2 * r = 2 ^ e \<and> even q)")
    case True
    then have "round53 p = q * 2 ^ e" by (simp add: rd)
    also have "\<dots> \<le> p" using r0 by (simp add: p)
    finally show ?thesis by (simp add: add_increasing2)
  next
    case False
    then have ge: "2 ^ e \<le> 2 * r" by auto
    from False have "round53 p = (q + 1) * 2 ^ e" by (simp add: rd)
    then have "2 * round53 p = 2 * (q * 2 ^ e) + 2 * 2 ^ e" by (simp add: algebra_simps)
    also have "\<dots> = 2 * p - 2 * r + 2 * 2 ^ e" by (simp add: p)
    also have "\<dots> \<le> 2 * p + 2 ^ e" using ge by simp
    finally show ?thesis by (simp add: e_def)
  qed
qed

lemma erand48_range: "0 \<le> erand48 sd \<and> erand48 sd < 2 ^ 48"
  by (simp add: erand48_def)

lemma round_slack:
  assumes n: "0 < n" and p0: "0 \<le> p" and pn: "p \<le> n * 2 ^ 48 - n"
  shows "(2::int) ^ (bitlen p - 53) \<le> n"
proof (cases "bitlen p \<le> 53")
  case True
  then show ?thesis using n by simp
next
  case False
  then have "54 \<le> bitlen p" by simp
  then obtain k where k: "bitlen p = 54 + k" using le_Suc_ex by blast
  have "0 < p"
  proof (rule ccontr)
    assume "\<not> 0 < p"
    then have "bitlen p = 0" by (subst bitlen.simps) simp
    with False show False by simp
  qed
  from bitlen_pow [OF this] k have "(2::int) ^ (53 + k) \<le> p" by simp
  also have "p < n * 2 ^ 48" using pn n by simp
  finally have lt: "(2::int) ^ (53 + k) < n * 2 ^ 48" .
  define c :: int where "c = 2 ^ 48"
  have cpos: "0 < c" by (simp add: c_def)
  have "(2::int) ^ (53 + k) = 2 ^ (5 + k) * 2 ^ 48"
    by (simp only: power_add [symmetric]) simp
  with lt have "(2::int) ^ (5 + k) * c < n * c" by (simp only: c_def)
  with cpos have "(2::int) ^ (5 + k) < n" by (simp only: mult_less_cancel_right_pos)
  moreover have "(2::int) ^ (1 + k) \<le> 2 ^ (5 + k)" by (rule power_increasing) simp_all
  ultimately show ?thesis using k by simp
qed

lemma rand_range_value:
  assumes n: "0 < n"
  shows "rand_range n sd = Inr (round53 (erand48 sd * n) div 2 ^ 48, erand48 sd) \<and>
         0 \<le> round53 (erand48 sd * n) div 2 ^ 48 \<and> round53 (erand48 sd * n) div 2 ^ 48 < n"
proof -
  let ?x = "erand48 sd"
  let ?p = "?x * n"
  let ?v = "round53 ?p div 2 ^ 48"
  from erand48_range [of sd] have x0: "0 \<le> ?x" and x1: "?x \<le> 2 ^ 48 - 1" by simp_all
  from x0 n have p0: "0 \<le> ?p" by simp
  have n0: "0 \<le> n" using n by simp
  have "?x * n \<le> (2 ^ 48 - 1) * n" by (rule mult_right_mono [OF x1 n0])
  then have pn: "?p \<le> n * 2 ^ 48 - n" by (simp add: algebra_simps)
  from round53_bounds [OF p0] have r0: "0 \<le> round53 ?p"
    and r1: "2 * round53 ?p \<le> 2 * ?p + 2 ^ (bitlen ?p - 53)" by simp_all
  from round_slack [OF n p0 pn] have sl: "(2::int) ^ (bitlen ?p - 53) \<le> n" .
  define nc where "nc = n * 2 ^ 48"
  from pn have pn': "?p \<le> nc - n" by (simp only: nc_def)
  from r1 sl pn' n have "round53 ?p < nc" by linarith
  then have lt: "round53 ?p < n * 2 ^ 48" by (simp only: nc_def)
  from r0 have v0: "0 \<le> ?v" by (simp add: pos_imp_zdiv_nonneg_iff)
  from lt have v1: "?v < n" by simp
  from n have "sgn n = 1" "\<bar>n\<bar> = n" by simp_all
  then have "rand_range n sd = (if 0 \<le> ?v \<and> ?v < n then Inr (?v, ?x) else Inl AssertFail)"
    by (simp add: rand_range_def Let_def)
  with v0 v1 show ?thesis by simp
qed

text \<open>
  C5. For every bound \<open>n > 0\<close> (a C \<^verbatim>\<open>int\<close>) and every generator state, \<^verbatim>\<open>rand_range\<close>
  returns, its assertion holding, a value \<open>v\<close> with \<open>0 \<le> v < n\<close>.
\<close>

theorem rand_range_in_range:
  assumes "0 < n" and "n \<le> INT_MAX"
  shows "\<exists>v x. rand_range n sd = Inr (v, x) \<and> 0 \<le> v \<and> v < n"
  using rand_range_value [OF assms(1), of sd] by blast

theorem rand_range_in_range_witness:
  "(0::int) < 2147483647 \<and> 2147483647 \<le> INT_MAX \<and>
   rand_range 2147483647 12345 = Inr (227378937, 29803012144720)"
proof -
  have h1: "(0::int) < 2147483647" by simp
  have h2: "2147483647 \<le> INT_MAX" by (simp add: INT_MAX_def)
  from rand_range_in_range [OF h1 h2, of 12345] obtain v x
    where "rand_range 2147483647 12345 = Inr (v, x)" by blast
  moreover have "rand_range 2147483647 12345 = Inr (227378937, 29803012144720)" by code_simp
  ultimately show ?thesis using h1 h2 by simp
qed


section \<open>The barrier\<close>

lemma barrier_run_append:
  "barrier_run b (xs @ ys) =
     (fst (barrier_run (fst (barrier_run b xs)) ys),
      snd (barrier_run b xs) @ snd (barrier_run (fst (barrier_run b xs)) ys))"
  by (induction xs arbitrary: b) (simp_all add: split_beta Let_def)

lemma barrier_run_waiting:
  "crossing b + int (length ts) < count b \<Longrightarrow>
   barrier_run b (map Cross ts) =
     (b\<lparr>crossing := crossing b + int (length ts), waiting := waiting b @ ts\<rparr>,
      replicate (length ts) [])"
proof (induction ts arbitrary: b)
  case Nil
  then show ?case by simp
next
  case (Cons t ts)
  let ?b1 = "b\<lparr>crossing := crossing b + 1, waiting := waiting b @ [t]\<rparr>"
  from Cons.prems have lt: "crossing b + 1 < count b" by simp
  then have step: "barrier_cross b t = (?b1, [])"
    by (simp add: barrier_cross_def Let_def)
  from Cons.prems have "crossing ?b1 + int (length ts) < count ?b1" by simp
  from Cons.IH [OF this] step show ?case by (simp add: add.assoc)
qed

text \<open>
  With no \<^verbatim>\<open>pthread_cond_wait\<close> returning early, a rendezvous works: none of the first
  \<open>n - 1\<close> calls releases a thread, the \<open>n\<close>-th call releases the waiters and its caller
  and leaves the barrier as initialised.
\<close>

lemma barrier_round:
  assumes "0 < n" and "int (length ts) = n - 1"
  shows "barrier_run (barrier_init n) (map Cross (ts @ [t])) =
           (barrier_init n, replicate (length ts) [] @ [ts @ [t]])"
proof -
  let ?b = "barrier_init n"
  let ?b1 = "?b\<lparr>crossing := crossing ?b + int (length ts), waiting := waiting ?b @ ts\<rparr>"
  from assms have "crossing ?b + int (length ts) < count ?b"
    by (simp add: barrier_init_def)
  from barrier_run_waiting [OF this]
  have w: "barrier_run ?b (map Cross ts) = (?b1, replicate (length ts) [])" .
  from assms have "barrier_cross ?b1 t = (?b, ts @ [t])"
    by (simp add: barrier_cross_def barrier_init_def Let_def)
  then have "barrier_run ?b1 [Cross t] = (?b, [ts @ [t]])" by simp
  with w show ?thesis by (simp add: barrier_run_append)
qed

text \<open>
  C4 fails on the code. On a barrier for two participants, thread 1 calls
  \<^verbatim>\<open>barrier_cross\<close> and waits; its \<^verbatim>\<open>pthread_cond_wait\<close> returns without a broadcast, and
  since the call stands under \<^verbatim>\<open>if\<close> and \<^verbatim>\<open>crossing\<close> is not tested again, thread 1
  leaves the barrier after one call of \<^verbatim>\<open>barrier_cross\<close> instead of two, \<^verbatim>\<open>crossing\<close>
  still being 1.
\<close>

theorem barrier_early_release:
  "barrier_run (barrier_init 2) [Cross 1, Wake 1] =
     (\<lparr>count = 2, crossing = 1, waiting = []\<rparr>, [[], [1]])"
  by (simp add: barrier_init_def barrier_cross_def barrier_wake_def)


section \<open>The stress test\<close>

text \<open>
  The removal branch of alternate mode: \<^verbatim>\<open>set_remove\<close> is called on \<^verbatim>\<open>last\<close>, and the
  record appended carries \<^verbatim>\<open>val\<close>, the value drawn last, whatever \<^verbatim>\<open>last\<close> is.
\<close>

lemma alternate_remove_step:
  assumes "alternate d \<noteq> 0" and "\<not> last_l l < 0"
    and "rand_range 100 (seed d) = Inr (k, x1)" and "k < update d"
    and "val_l l = Some pv"
    and "set_remove m (set_d d) (last_l l) = Some (Inr (b, m'))"
  shows "\<exists>d' l'. test_step d l m tr = Some (Inr (d', l', m', tr @ [(1, pv)])) \<and>
           nb_remove d' = nb_remove d + 1 \<and>
           diff d' = (if b then diff d - 1 else diff d) \<and>
           last_l l' = - 1 \<and> val_l l' = Some pv"
  using assms by (simp add: test_step_def bind_result_def Let_def)

text \<open>
  C6 fails on the code: the removal record of alternate mode carries \<^verbatim>\<open>val\<close>, not the
  value \<^verbatim>\<open>last\<close> that the removal targets. One worker on
  a new set with seed 2, three operations, range 10, update rate 50: it adds 5, looks
  6 up, and removes 5 (the set is empty again and \<^verbatim>\<open>diff\<close> is back at 0), but the
  record of the removal reads \<^verbatim>\<open>1 - 6\<close>.
\<close>

theorem alternate_remove_record:
  "single_run [] 2 3 10 50 1 = Some (Inr (1, 1, 0, [(0, 5), (2, 6), (1, 6)], []))"
  by code_simp

text \<open>
  C7, as amended. In alternate mode, when a worker with no outstanding value attempts
  an add, its add counter is incremented whether the add succeeds or not; only
  \<^verbatim>\<open>diff\<close> and the recording of the value as outstanding depend on the success.
\<close>

theorem alternate_add_counter:
  assumes "alternate d \<noteq> 0" and "last_l l < 0"
    and "rand_range 100 (seed d) = Inr (k, x1)" and "k < update d"
    and "rand_range (range_d d) x1 = Inr (r, x2)"
    and "set_add m (set_d d) (r + 1) = Some (Inr (b, m'))"
  shows "\<exists>d' l'. test_step d l m tr = Some (Inr (d', l', m', tr @ [(0, r + 1)])) \<and>
           nb_add d' = nb_add d + 1 \<and>
           diff d' = (if b then diff d + 1 else diff d) \<and>
           last_l l' = (if b then r + 1 else last_l l)"
  using assms by (simp add: test_step_def bind_result_def Let_def)

theorem alternate_add_counter_witness:
  "alternate (thread_init (fst (set_new empty_mem)) 0 1 1 100 1) \<noteq> 0 \<and>
   last_l \<lparr>val_l = None, last_l = - 1\<rparr> < 0 \<and>
   rand_range 100 (seed (thread_init (fst (set_new empty_mem)) 0 1 1 100 1)) = Inr (0, 11) \<and>
   0 < update (thread_init (fst (set_new empty_mem)) 0 1 1 100 1) \<and>
   rand_range (range_d (thread_init (fst (set_new empty_mem)) 0 1 1 100 1)) 11 =
     Inr (0, 277363943098) \<and>
   set_add (splice (snd (set_new empty_mem)) 1 VAL_MIN 0 1)
     (set_d (thread_init (fst (set_new empty_mem)) 0 1 1 100 1)) (0 + 1) =
     Some (Inr (False, splice (snd (set_new empty_mem)) 1 VAL_MIN 0 1)) \<and>
   map_option (map_sum id (\<lambda>(d', l', m', tr'). (nb_add d', diff d', last_l l', tr')))
     (test_step (thread_init (fst (set_new empty_mem)) 0 1 1 100 1)
        \<lparr>val_l = None, last_l = - 1\<rparr> (splice (snd (set_new empty_mem)) 1 VAL_MIN 0 1) []) =
     Some (Inr (1, 0, - 1, [(0, 1)]))"
proof -
  let ?s = "fst (set_new empty_mem)"
  let ?d = "thread_init ?s 0 1 1 100 1"
  let ?l = "\<lparr>val_l = None, last_l = - 1\<rparr>"
  let ?m = "splice (snd (set_new empty_mem)) 1 VAL_MIN 0 1"
  have h1: "alternate ?d \<noteq> 0" by (simp add: thread_init_def)
  have h2: "last_l ?l < 0" by simp
  have h3: "rand_range 100 (seed ?d) = Inr (0, 11)" by code_simp
  have h4: "0 < update ?d" by (simp add: thread_init_def)
  have h5: "rand_range (range_d ?d) 11 = Inr (0, 277363943098)" by code_simp
  have ok: "set_ok ?m ?s [(1, VAL_MIN), (2, 1), (0, VAL_MAX)]" by code_simp
  have le: "(1::int) \<le> VAL_MAX" by (simp add: VAL_MAX_def INT_MAX_def)
  from ok le have "set_add ?m ?s 1 = Some (Inr (False, ?m))"
  proof (cases rule: set_add_cases)
    case present
    then show ?thesis by simp
  next
    case (absent front q x b y post)
    from absent(4) show ?thesis by simp
  qed
  then have h6: "set_add ?m (set_d ?d) (0 + 1) = Some (Inr (False, ?m))"
    by (simp add: thread_init_def)
  from alternate_add_counter [OF h1 h2 h3 h4 h5 h6, of "[]"]
  have c: "map_option (map_sum id (\<lambda>(d', l', m', tr'). (nb_add d', diff d', last_l l', tr')))
     (test_step ?d ?l ?m []) = Some (Inr (1, 0, - 1, [(0, 1)]))"
    by (auto simp: thread_init_def)
  from h1 h2 h3 h4 h5 h6 c show ?thesis by simp
qed

text \<open>
  C7 as stated fails: with the value 1 already in the set, range 1 and update rate 100,
  the only add attempt of the worker fails (\<^verbatim>\<open>diff\<close> stays 0, the set still holds just
  1) and \<^verbatim>\<open>nb_add\<close> is 1 all the same.
\<close>

theorem alternate_add_counter_counterexample:
  "single_run [Add 1] 0 1 1 100 1 = Some (Inr (1, 0, 0, [(0, 1)], [1])) \<and>
   map_option (map_sum id fst)
     (set_add (splice (snd (set_new empty_mem)) 1 VAL_MIN 0 1) (fst (set_new empty_mem)) 1) =
     Some (Inr False)"
  by code_simp


end
